theory Spec2Isabelle
  imports Main "HOL-Library.Word"
begin

section \<open>Audio delivery pipeline: playback engine and synthesis stream client\<close>

text \<open>
  The development embeds \<^verbatim>\<open>speaker.py\<close> (class \<^verbatim>\<open>Speaker\<close>), \<^verbatim>\<open>tts_client.py\<close>
  (class \<^verbatim>\<open>TTSClient\<close>), \<^verbatim>\<open>audio_utils.py\<close> (\<^verbatim>\<open>save_to_wav\<close>) and the constants of
  \<^verbatim>\<open>config.py\<close>. Objects are records, every mutation is explicit state passing, every
  raise is a value, and the operations on the audio device, the connection and the file
  system are recorded in traces so that their order can be stated.
\<close>

subsection \<open>Bytes, Python slices, exceptions\<close>

type_synonym byte = "8 word"
type_synonym bytes = "byte list"

text \<open>\<^verbatim>\<open>xs[:n]\<close> and \<^verbatim>\<open>xs[n:]\<close> for a Python integer \<open>n\<close>: a negative bound counts
  from the end and is clamped at the start of the sequence.\<close>

definition slice_to :: "int \<Rightarrow> 'a list \<Rightarrow> 'a list" where
  "slice_to n xs = (if n < 0 then take (length xs - nat (- n)) xs else take (nat n) xs)"

definition slice_from :: "int \<Rightarrow> 'a list \<Rightarrow> 'a list" where
  "slice_from n xs = (if n < 0 then drop (length xs - nat (- n)) xs else drop (nat n) xs)"

datatype exn = AttributeError | OSError | TypeError | ConnectionClosed

subsection \<open>config.py\<close>

definition CHANNELS :: int where "CHANNELS = 1"
definition RATE :: int where "RATE = 48000"
definition CHUNK :: int where "CHUNK = 4096"

subsection \<open>speaker.py: the playback engine\<close>

text \<open>
  The handle \<^verbatim>\<open>self._stream\<close> is \<open>None\<close> or a PyAudio stream; a write is accepted by an
  active stream and raises on a stopped or closed one. The playback thread is at one of two
  places while it lives: \<open>Ready\<close>, about to test \<^verbatim>\<open>while not self._exit.is_set()\<close>, or
  \<open>Waiting\<close>, inside the \<^verbatim>\<open>try\<close> and blocked in \<^verbatim>\<open>self._queue.get(timeout=...)\<close>. It ends
  \<open>Finished\<close> when \<^verbatim>\<open>_play\<close> returns and \<open>Died\<close> when an exception leaves \<^verbatim>\<open>_play\<close>.
\<close>

datatype pa_stream = Active | Inactive

datatype thread_state = Ready | Waiting | Finished | Died

datatype event =
    SinkOpen | SinkStart | SinkWrite bytes | SinkWriteFailed bytes | SinkStop | SinkClose
  | Logged exn | Joined

record speaker =
  exit_flag :: bool
  queue :: "bytes list"
  chunk :: int
  buffer :: bytes
  stream :: "pa_stream option"
  thread :: "thread_state option"
  trace :: "event list"

text \<open>\<^verbatim>\<open>Speaker.__init__\<close>: the event is clear, the queue and the buffer are empty, there
  is neither a stream nor a thread.\<close>

definition new_speaker :: "int \<Rightarrow> speaker" where
  "new_speaker c =
     \<lparr>exit_flag = False, queue = [], chunk = c, buffer = [], stream = None,
      thread = None, trace = []\<rparr>"

text \<open>\<^verbatim>\<open>Speaker.start\<close>: \<^verbatim>\<open>self._audio.open(...)\<close> raises when the device cannot be opened
  (\<open>device_ok\<close> is the device's answer); otherwise the stream is open and started, the
  event is cleared and the thread begins \<^verbatim>\<open>_play\<close>.\<close>

definition start :: "bool \<Rightarrow> speaker \<Rightarrow> exn + speaker" where
  "start device_ok s =
     (if \<not> device_ok then Inl OSError
      else Inr (s\<lparr>stream := Some Active, exit_flag := False, thread := Some Ready,
                  trace := trace s @ [SinkOpen, SinkStart]\<rparr>))"

text \<open>\<^verbatim>\<open>Speaker.play\<close>: \<^verbatim>\<open>self._queue.put(data)\<close>.\<close>

definition play :: "bytes \<Rightarrow> speaker \<Rightarrow> speaker" where
  "play d s = s\<lparr>queue := queue s @ [d]\<rparr>"

text \<open>\<^verbatim>\<open>self._stream.write(b)\<close>: accepted by an active stream; \<open>AttributeError\<close> when the
  handle is \<open>None\<close>, \<open>OSError\<close> from a stream that is not active.\<close>

definition stream_write :: "bytes \<Rightarrow> speaker \<Rightarrow> exn option \<times> speaker" where
  "stream_write b s =
     (if stream s = Some Active then (None, s\<lparr>trace := trace s @ [SinkWrite b]\<rparr>)
      else (Some (if stream s = None then AttributeError else OSError),
            s\<lparr>trace := trace s @ [SinkWriteFailed b]\<rparr>))"

text \<open>The inner loop of \<^verbatim>\<open>_play\<close> (lines 55 to 58): the frame is cut off the buffer
  before it is written, so a write that raises leaves the loop with that frame gone. The
  loop need not end (a frame size that is not positive): not returning is \<open>None\<close>.\<close>

partial_function (option) slice_loop :: "speaker \<Rightarrow> (exn option \<times> speaker) option" where
  "slice_loop s =
     (if chunk s \<le> int (length (buffer s)) then
        (case stream_write (slice_to (chunk s) (buffer s))
                (s\<lparr>buffer := slice_from (chunk s) (buffer s)\<rparr>) of
           (Some e, s') \<Rightarrow> Some (Some e, s')
         | (None, s') \<Rightarrow> slice_loop s')
      else Some (None, s))"

declare slice_loop.simps [code]

text \<open>The \<^verbatim>\<open>try\<close> statement of \<^verbatim>\<open>_play\<close> (lines 52 to 64), one pass. \<^verbatim>\<open>get\<close> returns the
  oldest fragment when there is one and raises \<^verbatim>\<open>queue.Empty\<close> after the timeout when
  the queue is empty. An exception of the slicing is caught by \<^verbatim>\<open>except Exception\<close> and
  printed; an exception of the write in the \<^verbatim>\<open>except queue.Empty\<close> handler is raised
  inside a handler, so no clause of this \<^verbatim>\<open>try\<close> catches it and it ends the thread.\<close>

definition play_loop_body :: "speaker \<Rightarrow> speaker option" where
  "play_loop_body s =
     (case queue s of
        d # q \<Rightarrow>
          (case slice_loop (s\<lparr>queue := q, buffer := buffer s @ d\<rparr>) of
             None \<Rightarrow> None
           | Some (None, s') \<Rightarrow> Some (s'\<lparr>thread := Some Ready\<rparr>)
           | Some (Some e, s') \<Rightarrow>
               Some (s'\<lparr>thread := Some Ready, trace := trace s' @ [Logged e]\<rparr>))
      | [] \<Rightarrow>
          (if buffer s \<noteq> [] then
             (case stream_write (buffer s) s of
                (None, s') \<Rightarrow> Some (s'\<lparr>buffer := [], thread := Some Ready\<rparr>)
              | (Some e, s') \<Rightarrow> Some (s'\<lparr>thread := Some Died\<rparr>))
           else Some (s\<lparr>thread := Some Ready\<rparr>)))"

text \<open>One step of the playback thread: the test of the \<^verbatim>\<open>while\<close> condition, or one pass
  of the \<^verbatim>\<open>try\<close> statement. A thread that has ended, or none, does nothing.\<close>

definition play_loop_step :: "speaker \<Rightarrow> speaker option" where
  "play_loop_step s =
     (if thread s = Some Ready then
        Some (s\<lparr>thread := Some (if exit_flag s then Finished else Waiting)\<rparr>)
      else if thread s = Some Waiting then play_loop_body s
      else Some s)"

text \<open>\<^verbatim>\<open>self._thread.join()\<close>: the caller waits while the playback thread runs until it
  has ended.\<close>

partial_function (option) join :: "speaker \<Rightarrow> speaker option" where
  "join s =
     (if thread s = Some Ready \<or> thread s = Some Waiting then
        (case play_loop_step s of None \<Rightarrow> None | Some s' \<Rightarrow> join s')
      else Some s)"

declare join.simps [code]

text \<open>\<^verbatim>\<open>Speaker.stop\<close>, statement by statement: set the event; stop, close and drop the
  stream if there is one; join and drop the thread if there is one; replace the queue.\<close>

definition stop_release :: "speaker \<Rightarrow> speaker" where
  "stop_release s =
     (if stream s \<noteq> None
      then s\<lparr>stream := None, trace := trace s @ [SinkStop, SinkClose]\<rparr> else s)"

definition stop_join :: "speaker \<Rightarrow> speaker option" where
  "stop_join s =
     (if thread s \<noteq> None then
        (case join s of
           None \<Rightarrow> None
         | Some s' \<Rightarrow> Some (s'\<lparr>thread := None, trace := trace s' @ [Joined]\<rparr>))
      else Some s)"

definition stop :: "speaker \<Rightarrow> speaker option" where
  "stop s =
     (case stop_join (stop_release (s\<lparr>exit_flag := True\<rparr>)) of
        None \<Rightarrow> None
      | Some s' \<Rightarrow> Some (s'\<lparr>queue := []\<rparr>))"

text \<open>A schedule of the playback session: the producer's calls of \<^verbatim>\<open>play\<close> interleaved
  with steps of the playback thread.\<close>

datatype action = Play bytes | Tick

fun exec :: "action \<Rightarrow> speaker \<Rightarrow> speaker option" where
  "exec (Play d) s = Some (play d s)"
| "exec Tick s = play_loop_step s"

fun run :: "action list \<Rightarrow> speaker \<Rightarrow> speaker option" where
  "run [] s = Some s"
| "run (a # as) s = (case exec a s of None \<Rightarrow> None | Some s' \<Rightarrow> run as s')"

fun played :: "action list \<Rightarrow> bytes list" where
  "played [] = []"
| "played (Play d # as) = d # played as"
| "played (Tick # as) = played as"

text \<open>The writes the device accepted, in order.\<close>

fun writes :: "event list \<Rightarrow> bytes list" where
  "writes [] = []"
| "writes (SinkWrite b # es) = b # writes es"
| "writes (e # es) = writes es"

text \<open>A live session: \<^verbatim>\<open>start\<close> on a fresh engine with frame size \<open>c\<close>.\<close>

definition started :: "int \<Rightarrow> speaker" where
  "started c = (new_speaker c)\<lparr>stream := Some Active, thread := Some Ready,
      trace := [SinkOpen, SinkStart]\<rparr>"

text \<open>A started session whose device rejects every write (a stream that is not active:
  \<^verbatim>\<open>write\<close> raises).\<close>

definition rejecting :: "int \<Rightarrow> speaker" where
  "rejecting c = (started c)\<lparr>stream := Some Inactive\<rparr>"

text \<open>All fragments are enqueued, then the loop takes one after the other and idles
  once: two steps for each pass of the loop.\<close>

definition batch :: "bytes list \<Rightarrow> action list" where
  "batch frags = map Play frags @ replicate (2 * length frags + 2) Tick"

subsection \<open>Cutting a byte sequence into frames\<close>

text \<open>The full frames of \<open>xs\<close> at frame size \<open>c\<close>, what is left after them, and both
  together: the full frames followed by the short rest when there is one.\<close>

function full_frames :: "nat \<Rightarrow> 'a list \<Rightarrow> 'a list list" where
  "full_frames c xs =
     (if c = 0 \<or> length xs < c then [] else take c xs # full_frames c (drop c xs))"
  by pat_completeness auto
termination
  by (relation "measure (\<lambda>(c, xs). length xs)") auto

function leftover :: "nat \<Rightarrow> 'a list \<Rightarrow> 'a list" where
  "leftover c xs = (if c = 0 \<or> length xs < c then xs else leftover c (drop c xs))"
  by pat_completeness auto
termination
  by (relation "measure (\<lambda>(c, xs). length xs)") auto

definition frames :: "nat \<Rightarrow> 'a list \<Rightarrow> 'a list list" where
  "frames c xs =
     full_frames c xs @ (if leftover c xs = [] then [] else [leftover c xs])"

text \<open>A live session of frame size \<open>c\<close>, between two steps of the playback thread.\<close>

definition live :: "nat \<Rightarrow> speaker \<Rightarrow> bool" where
  "live c s \<longleftrightarrow>
     chunk s = int c \<and> stream s = Some Active \<and> \<not> exit_flag s \<and>
     (thread s = Some Ready \<or> thread s = Some Waiting) \<and> length (buffer s) < c"

text \<open>What a test observes of the engine: the queue, the buffer, the accepted writes.\<close>

definition observe :: "speaker \<Rightarrow> bytes list \<times> bytes \<times> bytes list" where
  "observe s = (queue s, buffer s, writes (trace s))"

text \<open>The sizes of the accepted writes, in order.\<close>

definition write_sizes :: "speaker \<Rightarrow> nat list" where
  "write_sizes s = map length (writes (trace s))"

subsection \<open>json.dumps on the control messages\<close>

text \<open>
  The values the caller may pass as \<^verbatim>\<open>text\<close>: \<open>None\<close>, a bool, a \<^verbatim>\<open>str\<close> (its code
  points) or a \<^verbatim>\<open>bytes\<close> object, which \<^verbatim>\<open>json\<close> cannot serialise. A control message is a
  \<^verbatim>\<open>dict\<close> with \<^verbatim>\<open>str\<close> keys, in insertion order. \<^verbatim>\<open>json.dumps\<close> is the standard library's,
  with its defaults: \<^verbatim>\<open>ensure_ascii\<close>, separators \<^verbatim>\<open>", "\<close> and \<^verbatim>\<open>": "\<close>.
\<close>

datatype pyobj = PyNone | PyBool bool | PyStr "nat list" | PyBytes bytes

definition str :: "string \<Rightarrow> nat list" where
  "str s = map of_char s"

definition hex_digit :: "nat \<Rightarrow> char" where
  "hex_digit d = ''0123456789abcdef'' ! (d mod 16)"

definition hex4 :: "nat \<Rightarrow> string" where
  "hex4 n = [hex_digit (n div 4096), hex_digit (n div 256), hex_digit (n div 16), hex_digit n]"

definition escape_char :: "nat \<Rightarrow> string" where
  "escape_char n =
     (if n = 0x22 then [CHR 0x5C, CHR 0x22]
      else if n = 0x5C then [CHR 0x5C, CHR 0x5C]
      else if n = 0x08 then [CHR 0x5C, CHR ''b'']
      else if n = 0x0C then [CHR 0x5C, CHR ''f'']
      else if n = 0x0A then [CHR 0x5C, CHR ''n'']
      else if n = 0x0D then [CHR 0x5C, CHR ''r'']
      else if n = 0x09 then [CHR 0x5C, CHR ''t'']
      else if 0x20 \<le> n \<and> n \<le> 0x7E then [char_of n]
      else if n < 0x10000 then CHR 0x5C # CHR ''u'' # hex4 n
      else CHR 0x5C # CHR ''u'' # hex4 (0xD800 + (n - 0x10000) div 1024 mod 1024) @
           CHR 0x5C # CHR ''u'' # hex4 (0xDC00 + (n - 0x10000) mod 1024))"

definition encode_str :: "nat list \<Rightarrow> string" where
  "encode_str s = CHR 0x22 # concat (map escape_char s) @ [CHR 0x22]"

fun json_value :: "pyobj \<Rightarrow> exn + string" where
  "json_value PyNone = Inr ''null''"
| "json_value (PyBool b) = Inr (if b then ''true'' else ''false'')"
| "json_value (PyStr s) = Inr (encode_str s)"
| "json_value (PyBytes b) = Inl TypeError"

fun json_items :: "(nat list \<times> pyobj) list \<Rightarrow> exn + string list" where
  "json_items [] = Inr []"
| "json_items ((k, v) # kvs) =
     (case json_value v of
        Inl e \<Rightarrow> Inl e
      | Inr sv \<Rightarrow>
          (case json_items kvs of
             Inl e \<Rightarrow> Inl e
           | Inr rest \<Rightarrow> Inr ((encode_str k @ '': '' @ sv) # rest)))"

fun join_with :: "string \<Rightarrow> string list \<Rightarrow> string" where
  "join_with sep [] = []"
| "join_with sep [x] = x"
| "join_with sep (x # y # ys) = x @ sep @ join_with sep (y # ys)"

definition json_dumps :: "(nat list \<times> pyobj) list \<Rightarrow> exn + string" where
  "json_dumps d =
     (case json_items d of
        Inl e \<Rightarrow> Inl e
      | Inr items \<Rightarrow> Inr (''{'' @ join_with '', '' items @ ''}''))"

subsection \<open>audio_utils.py: the recording export\<close>

record wav =
  filename :: string
  nchannels :: int
  sampwidth :: int
  framerate :: int
  pcm :: bytes

text \<open>\<^verbatim>\<open>save_to_wav(audio_data)\<close> with the default file name: one channel, the sample
  width of \<^verbatim>\<open>paInt16\<close> (two bytes), the configured rate, and the fragments joined.\<close>

definition save_to_wav :: "bytes list \<Rightarrow> wav" where
  "save_to_wav audio =
     \<lparr>filename = ''output.wav'', nchannels = CHANNELS, sampwidth = 2, framerate = RATE,
      pcm = concat audio\<rparr>"

subsection \<open>tts_client.py: the synthesis stream client\<close>

text \<open>
  What \<^verbatim>\<open>self._socket.recv()\<close> returns: \<open>None\<close>, a \<^verbatim>\<open>str\<close>, a \<^verbatim>\<open>bytes\<close> object, or an
  object of another type. The connection is open or closed; \<open>inbox\<close> holds the messages
  that arrived and were not yet received. \<^verbatim>\<open>recv\<close> returns the oldest of them, raises
  \<open>ConnectionClosed\<close> when there is none and the connection is closed, and blocks when
  there is none and the connection is open. The receive thread is \<open>RReady\<close>, about to test
  \<^verbatim>\<open>while not self._exit.is_set()\<close>, or \<open>RReceiving\<close>, blocked in \<^verbatim>\<open>recv\<close>, or \<open>RDone\<close>,
  when \<^verbatim>\<open>_receiver\<close> has returned, its \<^verbatim>\<open>finally\<close> clause done.
\<close>

datatype message = MNone | MText string | MBytes bytes | MOther

datatype rthread = RReady | RReceiving | RDone

datatype cevent =
    Sent string | ConnClosed | RecvRaised exn | Printed string | PrintedError exn
  | Exported wav | ReceiverJoined

record tts_client =
  conn_open :: bool
  inbox :: "message list"
  c_exit :: bool
  speaker :: speaker
  receiver :: rthread
  audio_data :: "bytes list"
  ctrace :: "cevent list"

text \<open>\<^verbatim>\<open>TTSClient.__init__\<close> once \<^verbatim>\<open>connect\<close> has returned: the connection is open, the
  event clear, the receive thread started.\<close>

definition new_client :: "speaker \<Rightarrow> tts_client" where
  "new_client sp =
     \<lparr>conn_open = True, inbox = [], c_exit = False, speaker = sp, receiver = RReady,
      audio_data = [], ctrace = []\<rparr>"

text \<open>The \<^verbatim>\<open>finally\<close> clause of \<^verbatim>\<open>_receiver\<close>: \<^verbatim>\<open>self._speaker.stop()\<close>, then
  \<^verbatim>\<open>save_to_wav(audio_data)\<close>.\<close>

definition finalize :: "tts_client \<Rightarrow> tts_client option" where
  "finalize c =
     (case stop (speaker c) of
        None \<Rightarrow> None
      | Some sp \<Rightarrow>
          Some (c\<lparr>speaker := sp, receiver := RDone,
                  ctrace := ctrace c @ [Exported (save_to_wav (audio_data c))]\<rparr>))"

text \<open>One step of the receive thread: the test of the \<^verbatim>\<open>while\<close> condition (and the
  \<^verbatim>\<open>finally\<close> clause when the loop ends there), or one \<^verbatim>\<open>recv\<close> and the handling of its
  result (and the \<^verbatim>\<open>except\<close> and \<^verbatim>\<open>finally\<close> clauses when it raises).\<close>

definition receiver_step :: "tts_client \<Rightarrow> tts_client option" where
  "receiver_step c =
     (if receiver c = RReady then
        (if c_exit c then finalize c else Some (c\<lparr>receiver := RReceiving\<rparr>))
      else if receiver c = RReceiving then
        (case inbox c of
           m # ms \<Rightarrow>
             (case m of
                MNone \<Rightarrow> Some (c\<lparr>inbox := ms, receiver := RReady\<rparr>)
              | MText t \<Rightarrow>
                  Some (c\<lparr>inbox := ms, receiver := RReady, ctrace := ctrace c @ [Printed t]\<rparr>)
              | MBytes b \<Rightarrow>
                  Some (c\<lparr>inbox := ms, speaker := play b (speaker c),
                          audio_data := audio_data c @ [b], receiver := RReady\<rparr>)
              | MOther \<Rightarrow> Some (c\<lparr>inbox := ms, receiver := RReady\<rparr>))
         | [] \<Rightarrow>
             (if conn_open c then Some c
              else finalize (c\<lparr>ctrace := ctrace c @
                     [RecvRaised ConnectionClosed, PrintedError ConnectionClosed]\<rparr>)))
      else Some c)"

text \<open>\<^verbatim>\<open>self._socket.send(m)\<close>: raises on a closed connection.\<close>

definition socket_send :: "string \<Rightarrow> tts_client \<Rightarrow> exn + tts_client" where
  "socket_send m c =
     (if conn_open c then Inr (c\<lparr>ctrace := ctrace c @ [Sent m]\<rparr>) else Inl ConnectionClosed)"

text \<open>A string between double quotes, and the text of the three control messages.\<close>

definition dq :: "string \<Rightarrow> string" where
  "dq s = CHR 0x22 # s @ [CHR 0x22]"

definition speak_message :: "pyobj \<Rightarrow> (nat list \<times> pyobj) list" where
  "speak_message text = [(str ''type'', PyStr (str ''Speak'')), (str ''text'', text)]"

definition flush_message :: "(nat list \<times> pyobj) list" where
  "flush_message = [(str ''type'', PyStr (str ''Flush''))]"

definition close_message :: "(nat list \<times> pyobj) list" where
  "close_message = [(str ''type'', PyStr (str ''Close''))]"

text \<open>\<^verbatim>\<open>TTSClient.speak\<close> and \<^verbatim>\<open>TTSClient.flush\<close>: the argument of \<^verbatim>\<open>send\<close> is evaluated
  first, so an exception of \<^verbatim>\<open>json.dumps\<close> leaves the method before anything is sent.\<close>

definition speak :: "pyobj \<Rightarrow> tts_client \<Rightarrow> exn + tts_client" where
  "speak text c =
     (case json_dumps (speak_message text) of Inl e \<Rightarrow> Inl e | Inr m \<Rightarrow> socket_send m c)"

definition flush :: "tts_client \<Rightarrow> exn + tts_client" where
  "flush c =
     (case json_dumps flush_message of Inl e \<Rightarrow> Inl e | Inr m \<Rightarrow> socket_send m c)"

text \<open>\<^verbatim>\<open>self._receiver_thread.join()\<close>: the caller waits while the receive thread runs
  until \<^verbatim>\<open>_receiver\<close> has returned.\<close>

partial_function (option) join_receiver :: "tts_client \<Rightarrow> tts_client option" where
  "join_receiver c =
     (if receiver c = RDone then Some c
      else (case receiver_step c of None \<Rightarrow> None | Some c' \<Rightarrow> join_receiver c'))"

declare join_receiver.simps [code]

text \<open>\<^verbatim>\<open>TTSClient.close\<close>: set the event, send the Close message, close the connection,
  join the receive thread. An exception of \<^verbatim>\<open>send\<close> leaves the method with the event
  set and nothing else done.\<close>

definition close :: "tts_client \<Rightarrow> (exn option \<times> tts_client) option" where
  "close c =
     (case json_dumps close_message of
        Inl e \<Rightarrow> Some (Some e, c\<lparr>c_exit := True\<rparr>)
      | Inr m \<Rightarrow>
          (case socket_send m (c\<lparr>c_exit := True\<rparr>) of
             Inl e \<Rightarrow> Some (Some e, c\<lparr>c_exit := True\<rparr>)
           | Inr c1 \<Rightarrow>
               (case join_receiver
                       (c1\<lparr>conn_open := False, ctrace := ctrace c1 @ [ConnClosed]\<rparr>) of
                  None \<Rightarrow> None
                | Some c2 \<Rightarrow> Some (None, c2\<lparr>ctrace := ctrace c2 @ [ReceiverJoined]\<rparr>))))"

text \<open>A schedule of the stream session: the network delivers a message or drops the
  connection, the receive thread or the playback thread takes a step, the caller calls
  \<^verbatim>\<open>speak\<close>, \<^verbatim>\<open>flush\<close> or \<^verbatim>\<open>close\<close> (an exception of these goes to the caller).\<close>

datatype cact = Deliver message | Drop | RecvStep | PlayStep | Speak pyobj | Flush | Close

fun cexec :: "cact \<Rightarrow> tts_client \<Rightarrow> tts_client option" where
  "cexec (Deliver m) c = Some (if conn_open c then c\<lparr>inbox := inbox c @ [m]\<rparr> else c)"
| "cexec Drop c = Some (c\<lparr>conn_open := False\<rparr>)"
| "cexec RecvStep c = receiver_step c"
| "cexec PlayStep c =
     (case play_loop_step (speaker c) of
        None \<Rightarrow> None
      | Some sp \<Rightarrow> Some (c\<lparr>speaker := sp\<rparr>))"
| "cexec (Speak t) c = Some (case speak t c of Inl e \<Rightarrow> c | Inr c' \<Rightarrow> c')"
| "cexec Flush c = Some (case flush c of Inl e \<Rightarrow> c | Inr c' \<Rightarrow> c')"
| "cexec Close c = (case close c of None \<Rightarrow> None | Some (e, c') \<Rightarrow> Some c')"

fun crun :: "cact list \<Rightarrow> tts_client \<Rightarrow> tts_client option" where
  "crun [] c = Some c"
| "crun (a # as) c = (case cexec a c of None \<Rightarrow> None | Some c' \<Rightarrow> crun as c')"

text \<open>The exports made, in order.\<close>

fun exports :: "cevent list \<Rightarrow> wav list" where
  "exports [] = []"
| "exports (Exported w # es) = w # exports es"
| "exports (e # es) = exports es"

text \<open>The number of times the sink was closed.\<close>

fun sink_closes :: "event list \<Rightarrow> nat" where
  "sink_closes [] = 0"
| "sink_closes (SinkClose # es) = Suc (sink_closes es)"
| "sink_closes (e # es) = sink_closes es"

text \<open>Finalization has run once: one export, of the recorded fragments, and the playback
  engine stopped with its sink closed once. Before the receive thread has ended nothing is
  exported and the playback session is live.\<close>

definition finalized :: "tts_client \<Rightarrow> bool" where
  "finalized c \<longleftrightarrow>
     exports (ctrace c) = [save_to_wav (audio_data c)] \<and> exit_flag (speaker c) \<and>
     stream (speaker c) = None \<and> thread (speaker c) = None \<and>
     sink_closes (trace (speaker c)) = 1"

definition session_inv :: "nat \<Rightarrow> tts_client \<Rightarrow> bool" where
  "session_inv ch c \<longleftrightarrow>
     (if receiver c = RDone then finalized c
      else live ch (speaker c) \<and> exports (ctrace c) = [] \<and>
           sink_closes (trace (speaker c)) = 0)"

text \<open>What a test observes of a session: the state of the receive thread, the exports
  made and the number of times the sink was closed.\<close>

definition summary :: "tts_client \<Rightarrow> rthread \<times> wav list \<times> nat" where
  "summary c = (receiver c, exports (ctrace c), sink_closes (trace (speaker c)))"

text \<open>In a trace, \<open>a\<close> occurs and no \<open>b\<close> occurs before its first occurrence.\<close>

fun precedes :: "'a \<Rightarrow> 'a \<Rightarrow> 'a list \<Rightarrow> bool" where
  "precedes a b [] = False"
| "precedes a b (x # xs) = (if x = a then True else if x = b then False else precedes a b xs)"

subsection \<open>Frames: basic facts\<close>

declare full_frames.simps [simp del] leftover.simps [simp del]

lemma concat_full_frames_leftover: "concat (full_frames c xs) @ leftover c xs = xs"
proof (induction c xs rule: full_frames.induct)
  case (1 c xs)
  show ?case
  proof (cases "c = 0 \<or> length xs < c")
    case True
    then show ?thesis by (simp add: full_frames.simps [of c xs] leftover.simps [of c xs])
  next
    case False
    with 1 have "concat (full_frames c (drop c xs)) @ leftover c (drop c xs) = drop c xs"
      by simp
    with False show ?thesis
      by (simp add: full_frames.simps [of c xs] leftover.simps [of c xs])
  qed
qed

lemma length_leftover: "0 < c \<Longrightarrow> length (leftover c xs) < c"
proof (induction c xs rule: leftover.induct)
  case (1 c xs)
  show ?case
  proof (cases "length xs < c")
    case True
    then show ?thesis by (simp add: leftover.simps [of c xs])
  next
    case False
    with 1 show ?thesis by (simp add: leftover.simps [of c xs])
  qed
qed

lemma length_full_frames: "w \<in> set (full_frames c xs) \<Longrightarrow> length w = c"
proof (induction c xs rule: full_frames.induct)
  case (1 c xs)
  show ?case
  proof (cases "c = 0 \<or> length xs < c")
    case True
    with 1(2) show ?thesis by (simp add: full_frames.simps [of c xs])
  next
    case False
    with 1 show ?thesis by (auto simp: full_frames.simps [of c xs])
  qed
qed

subsection \<open>The playback loop\<close>

lemma start_new_speaker: "start True (new_speaker c) = Inr (started c)"
  by (simp add: start_def new_speaker_def started_def)

lemma slice_loop_active:
  "0 < chunk s \<Longrightarrow> stream s = Some Active \<Longrightarrow>
   slice_loop s =
     Some (None, s\<lparr>buffer := leftover (nat (chunk s)) (buffer s),
                     trace := trace s @ map SinkWrite (full_frames (nat (chunk s)) (buffer s))\<rparr>)"
proof (induction "length (buffer s)" arbitrary: s rule: less_induct)
  case less
  let ?c = "nat (chunk s)"
  show ?case
  proof (cases "chunk s \<le> int (length (buffer s))")
    case False
    with less.prems have "length (buffer s) < ?c" by simp
    with False show ?thesis
      by (subst slice_loop.simps)
         (simp add: full_frames.simps [of ?c "buffer s"] leftover.simps [of ?c "buffer s"])
  next
    case True
    let ?s' = "s\<lparr>buffer := drop ?c (buffer s), trace := trace s @ [SinkWrite (take ?c (buffer s))]\<rparr>"
    from True less.prems have ge: "\<not> length (buffer s) < ?c" "?c \<noteq> 0" by simp_all
    have "length (buffer ?s') < length (buffer s)" using ge by simp
    moreover have "0 < chunk ?s'" "stream ?s' = Some Active" using less.prems by simp_all
    ultimately have IH: "slice_loop ?s' =
       Some (None, ?s'\<lparr>buffer := leftover (nat (chunk ?s')) (buffer ?s'),
                     trace := trace ?s' @ map SinkWrite (full_frames (nat (chunk ?s')) (buffer ?s'))\<rparr>)"
      by (rule less.hyps)
    have "slice_loop s = slice_loop ?s'"
      using True less.prems
      by (subst slice_loop.simps) (simp add: stream_write_def slice_to_def slice_from_def)
    with IH ge show ?thesis
      by (simp add: full_frames.simps [of ?c "buffer s"] leftover.simps [of ?c "buffer s"])
  qed
qed

lemma slice_loop_inactive:
  "stream s \<noteq> Some Active \<Longrightarrow>
   slice_loop s =
     Some (if chunk s \<le> int (length (buffer s))
           then (Some (if stream s = None then AttributeError else OSError),
                 s\<lparr>buffer := slice_from (chunk s) (buffer s),
                   trace := trace s @ [SinkWriteFailed (slice_to (chunk s) (buffer s))]\<rparr>)
           else (None, s))"
  by (subst slice_loop.simps) (simp add: stream_write_def)


text \<open>A pass that dequeues a fragment while the sink rejects writes: the first frame is
  cut off the buffer, its write raises, the exception is printed and the loop goes on.\<close>

lemma step_rejected:
  assumes "stream s \<noteq> Some Active" "thread s = Some Waiting" "queue s = d # q"
    "chunk s \<le> int (length (buffer s @ d))"
  shows "play_loop_step s =
     Some (s\<lparr>queue := q, buffer := slice_from (chunk s) (buffer s @ d),
              thread := Some Ready,
              trace := trace s @ [SinkWriteFailed (slice_to (chunk s) (buffer s @ d)),
                 Logged (if stream s = None then AttributeError else OSError)]\<rparr>)"
proof -
  let ?s = "s\<lparr>queue := q, buffer := buffer s @ d\<rparr>"
  from assms(1) have n: "stream ?s \<noteq> Some Active" by simp
  from slice_loop_inactive [OF n] assms show ?thesis
    by (simp add: play_loop_step_def play_loop_body_def)
qed

lemma writes_append: "writes (es @ fs) = writes es @ writes fs"
  by (induction es rule: writes.induct) simp_all

lemma writes_map_SinkWrite: "writes (map SinkWrite ws) = ws"
  by (induction ws) simp_all

lemma full_frames_append:
  "full_frames c (xs @ ys) = full_frames c xs @ full_frames c (leftover c xs @ ys)"
proof (induction c xs rule: full_frames.induct)
  case (1 c xs)
  show ?case
  proof (cases "c = 0 \<or> length xs < c")
    case True
    then show ?thesis by (simp add: full_frames.simps [of c xs] leftover.simps [of c xs])
  next
    case False
    with 1 have "full_frames c (drop c xs @ ys) =
        full_frames c (drop c xs) @ full_frames c (leftover c (drop c xs) @ ys)" by simp
    with False show ?thesis
      by (simp add: full_frames.simps [of c xs] full_frames.simps [of c "xs @ ys"]
            leftover.simps [of c xs])
  qed
qed

lemma leftover_append: "leftover c (xs @ ys) = leftover c (leftover c xs @ ys)"
proof (induction c xs rule: leftover.induct)
  case (1 c xs)
  show ?case
  proof (cases "c = 0 \<or> length xs < c")
    case True
    then show ?thesis by (simp add: leftover.simps [of c xs])
  next
    case False
    with 1 have "leftover c (drop c xs @ ys) = leftover c (leftover c (drop c xs) @ ys)"
      by simp
    with False show ?thesis
      by (simp add: leftover.simps [of c xs] leftover.simps [of c "xs @ ys"])
  qed
qed

lemma step_ready:
  "thread s = Some Ready \<Longrightarrow> \<not> exit_flag s \<Longrightarrow>
   play_loop_step s = Some (s\<lparr>thread := Some Waiting\<rparr>)"
  by (simp add: play_loop_step_def)

lemma step_got:
  assumes "0 < c" "live c s" "thread s = Some Waiting" "queue s = d # q"
  shows "play_loop_step s =
     Some (s\<lparr>queue := q, buffer := leftover c (buffer s @ d),
              trace := trace s @ map SinkWrite (full_frames c (buffer s @ d)),
              thread := Some Ready\<rparr>)"
proof -
  let ?s = "s\<lparr>queue := q, buffer := buffer s @ d\<rparr>"
  have "0 < chunk ?s" "stream ?s = Some Active" using assms by (simp_all add: live_def)
  from slice_loop_active [OF this] assms show ?thesis
    by (simp add: play_loop_step_def play_loop_body_def live_def)
qed

lemma step_idle:
  assumes "stream s = Some Active" "thread s = Some Waiting" "queue s = []"
  shows "play_loop_step s =
     Some (if buffer s = [] then s\<lparr>thread := Some Ready\<rparr>
           else s\<lparr>trace := trace s @ [SinkWrite (buffer s)], buffer := [],
                  thread := Some Ready\<rparr>)"
  using assms by (simp add: play_loop_step_def play_loop_body_def stream_write_def)

text \<open>What one step of the playback thread does to a live session.\<close>

lemma step_live:
  assumes "0 < c" "live c s"
  shows "\<exists>s'. play_loop_step s = Some s' \<and> live c s' \<and>
      concat (writes (trace s')) @ buffer s' @ concat (queue s') =
      concat (writes (trace s)) @ buffer s @ concat (queue s) \<and>
      (\<exists>ws. writes (trace s') = writes (trace s) @ ws \<and>
            (\<forall>w \<in> set ws. 0 < length w \<and> length w \<le> c))"
proof (cases "thread s = Some Ready")
  case True
  with assms show ?thesis by (simp add: step_ready live_def)
next
  case False
  with assms have w: "thread s = Some Waiting" by (auto simp: live_def)
  show ?thesis
  proof (cases "queue s")
    case Nil
    from assms have a: "stream s = Some Active" by (simp add: live_def)
    show ?thesis
      using assms Nil by (simp add: step_idle [OF a w Nil] live_def writes_append)
  next
    case (Cons d q)
    have "concat (full_frames c (buffer s @ d)) @ leftover c (buffer s @ d) = buffer s @ d"
      by (rule concat_full_frames_leftover)
    then have e: "concat (full_frames c (buffer s @ d)) @ leftover c (buffer s @ d) @ ys = buffer s @ d @ ys" for ys
      by (metis append.assoc)
    have l: "\<forall>w \<in> set (full_frames c (buffer s @ d)). 0 < length w \<and> length w \<le> c"
      using assms(1) by (auto dest: length_full_frames)
    show ?thesis
      using assms Cons l
      by (simp add: step_got [OF assms w Cons] live_def writes_append writes_map_SinkWrite
            length_leftover e)
  qed
qed


lemma play_live:
  "live c s \<Longrightarrow> live c (play d s)"
  by (simp add: live_def play_def)

lemma run_live:
  assumes "0 < c" "live c s"
  shows "\<exists>s'. run acts s = Some s' \<and> live c s' \<and>
      concat (writes (trace s')) @ buffer s' @ concat (queue s') =
      concat (writes (trace s)) @ buffer s @ concat (queue s) @ concat (played acts) \<and>
      (\<exists>k. queue s' = drop k (queue s @ played acts)) \<and>
      (\<exists>ws. writes (trace s') = writes (trace s) @ ws \<and>
            (\<forall>w \<in> set ws. 0 < length w \<and> length w \<le> c))"
  using assms(2)
proof (induction acts arbitrary: s)
  case Nil
  then show ?case by (auto intro: exI [of _ 0])
next
  case (Cons a acts)
  show ?case
  proof (cases a)
    case (Play d)
    from Cons.prems have "live c (play d s)" by (rule play_live)
    from Cons.IH [OF this] obtain s' k ws where
      r: "run acts (play d s) = Some s'" "live c s'" and
      c: "concat (writes (trace s')) @ buffer s' @ concat (queue s') =
          concat (writes (trace (play d s))) @ buffer (play d s) @ concat (queue (play d s)) @
          concat (played acts)" and
      q: "queue s' = drop k (queue (play d s) @ played acts)" and
      w: "writes (trace s') = writes (trace (play d s)) @ ws"
         "\<forall>w \<in> set ws. 0 < length w \<and> length w \<le> c"
      by blast
    from r Play have "run (a # acts) s = Some s'" by simp
    moreover from c Play have "concat (writes (trace s')) @ buffer s' @ concat (queue s') =
      concat (writes (trace s)) @ buffer s @ concat (queue s) @ concat (played (a # acts))"
      by (simp add: play_def)
    moreover from q Play have "queue s' = drop k (queue s @ played (a # acts))"
      by (simp add: play_def)
    moreover from w have "writes (trace s') = writes (trace s) @ ws" by (simp add: play_def)
    ultimately show ?thesis using r(2) w(2) by blast
  next
    case Tick
    from step_live [OF assms(1) Cons.prems] obtain s1 ws1 where
      s1: "play_loop_step s = Some s1" "live c s1" and
      c1: "concat (writes (trace s1)) @ buffer s1 @ concat (queue s1) =
           concat (writes (trace s)) @ buffer s @ concat (queue s)" and
      w1: "writes (trace s1) = writes (trace s) @ ws1"
          "\<forall>w \<in> set ws1. 0 < length w \<and> length w \<le> c"
      by blast
    have q1: "\<exists>k \<le> length (queue s). queue s1 = drop k (queue s)"
    proof (cases "thread s = Some Waiting \<and> queue s \<noteq> []")
      case True
      then obtain d q where dq: "queue s = d # q" by (cases "queue s") auto
      from True have "thread s = Some Waiting" by simp
      from step_got [OF assms(1) Cons.prems this dq] s1(1) have "queue s1 = q" by auto
      with dq have "1 \<le> length (queue s) \<and> queue s1 = drop 1 (queue s)" by simp
      then show ?thesis ..
    next
      case False
      with s1(1) Cons.prems have "queue s1 = queue s"
        by (auto simp: play_loop_step_def play_loop_body_def live_def stream_write_def
            split: if_splits)
      then have "0 \<le> length (queue s) \<and> queue s1 = drop 0 (queue s)" by simp
      then show ?thesis ..
    qed
    then obtain k1 where k1: "k1 \<le> length (queue s)" "queue s1 = drop k1 (queue s)" by blast
    from Cons.IH [OF s1(2)] obtain s' k ws where
      r: "run acts s1 = Some s'" "live c s'" and
      c: "concat (writes (trace s')) @ buffer s' @ concat (queue s') =
          concat (writes (trace s1)) @ buffer s1 @ concat (queue s1) @ concat (played acts)" and
      q: "queue s' = drop k (queue s1 @ played acts)" and
      w: "writes (trace s') = writes (trace s1) @ ws"
         "\<forall>w \<in> set ws. 0 < length w \<and> length w \<le> c"
      by blast
    from r s1 Tick have "run (a # acts) s = Some s'" by simp
    moreover from c c1 Tick have "concat (writes (trace s')) @ buffer s' @ concat (queue s') =
      concat (writes (trace s)) @ buffer s @ concat (queue s) @ concat (played (a # acts))"
      by (metis append.assoc played.simps(3))
    moreover have "\<exists>k. queue s' = drop k (queue s @ played (a # acts))"
    proof -
      from q k1 Tick have "queue s' = drop (k + k1) (queue s @ played (a # acts))"
        by (simp add: add.commute)
      then show ?thesis ..
    qed
    moreover from w w1 have "writes (trace s') = writes (trace s) @ (ws1 @ ws)"
      "\<forall>w \<in> set (ws1 @ ws). 0 < length w \<and> length w \<le> c" by auto
    ultimately show ?thesis using r(2) by blast
  qed
qed


lemma run_append:
  "run (as @ bs) s = (case run as s of None \<Rightarrow> None | Some s' \<Rightarrow> run bs s')"
  by (induction as arbitrary: s) (simp_all split: option.splits)

lemma run_plays: "run (map Play frags) s = Some (s\<lparr>queue := queue s @ frags\<rparr>)"
  by (induction frags arbitrary: s) (simp_all add: play_def)

lemma live_started: "0 < c \<Longrightarrow> live c (started (int c))"
  by (simp add: live_def started_def new_speaker_def)

lemma drain:
  assumes "0 < c"
  shows "live c s \<Longrightarrow> thread s = Some Ready \<Longrightarrow> queue s = q \<Longrightarrow>
    \<exists>s'. run (replicate (2 * length q) Tick) s = Some s' \<and> live c s' \<and>
      thread s' = Some Ready \<and> queue s' = [] \<and>
      buffer s' = leftover c (buffer s @ concat q) \<and>
      trace s' = trace s @ map SinkWrite (full_frames c (buffer s @ concat q))"
proof (induction q arbitrary: s)
  case Nil
  then have "length (buffer s) < c" by (simp add: live_def)
  with Nil show ?case
    by (simp add: full_frames.simps [of c "buffer s"] leftover.simps [of c "buffer s"])
next
  case (Cons d q)
  let ?s1 = "s\<lparr>thread := Some Waiting\<rparr>"
  let ?s2 = "?s1\<lparr>queue := q, buffer := leftover c (buffer ?s1 @ d),
              trace := trace ?s1 @ map SinkWrite (full_frames c (buffer ?s1 @ d)),
              thread := Some Ready\<rparr>"
  from Cons.prems have e: "\<not> exit_flag s" by (simp add: live_def)
  have 1: "play_loop_step s = Some ?s1" using Cons.prems(2) e by (rule step_ready)
  have l1: "live c ?s1" using Cons.prems by (simp add: live_def)
  have 2: "play_loop_step ?s1 = Some ?s2"
    using Cons.prems by (intro step_got [OF assms l1]) simp_all
  have l2: "live c ?s2" using Cons.prems assms by (simp add: live_def length_leftover)
  from Cons.IH [OF l2] obtain s' where
    r: "run (replicate (2 * length q) Tick) ?s2 = Some s'" "live c s'"
       "thread s' = Some Ready" "queue s' = []" and
    b: "buffer s' = leftover c (buffer ?s2 @ concat q)" and
    t: "trace s' = trace ?s2 @ map SinkWrite (full_frames c (buffer ?s2 @ concat q))"
    by auto
  have "run (replicate (2 * length (d # q)) Tick) s = Some s'"
    using 1 2 r(1) by simp
  moreover from b have "buffer s' = leftover c (buffer s @ concat (d # q))"
    using leftover_append [of c "buffer s @ d" "concat q"] by simp
  moreover from t have "trace s' = trace s @ map SinkWrite (full_frames c (buffer s @ concat (d # q)))"
    using full_frames_append [of c "buffer s @ d" "concat q"] by simp
  ultimately show ?case using r by blast
qed

lemma batch_run:
  assumes "0 < c"
  shows "\<exists>s. run (batch frags) (started (int c)) = Some s \<and> queue s = [] \<and> buffer s = [] \<and>
    thread s = Some Ready \<and> writes (trace s) = frames c (concat frags)"
proof -
  let ?s0 = "(started (int c))\<lparr>queue := frags\<rparr>"
  have p: "run (map Play frags) (started (int c)) = Some ?s0"
    by (simp add: run_plays started_def new_speaker_def)
  have l0: "live c ?s0" using live_started [OF assms] by (simp add: live_def)
  have "thread ?s0 = Some Ready" "queue ?s0 = frags" by (simp_all add: started_def)
  from drain [OF assms l0 this] obtain s1 where
    r: "run (replicate (2 * length frags) Tick) ?s0 = Some s1" "live c s1"
       "thread s1 = Some Ready" "queue s1 = []" and
    b: "buffer s1 = leftover c (concat frags)" and
    t: "trace s1 = [SinkOpen, SinkStart] @ map SinkWrite (full_frames c (concat frags))"
    by (auto simp: started_def new_speaker_def)
  let ?s2 = "s1\<lparr>thread := Some Waiting\<rparr>"
  define s3 where "s3 = (if buffer ?s2 = [] then ?s2\<lparr>thread := Some Ready\<rparr>
             else ?s2\<lparr>trace := trace ?s2 @ [SinkWrite (buffer ?s2)], buffer := [],
                  thread := Some Ready\<rparr>)"
  from r(2) have e: "\<not> exit_flag s1" "stream ?s2 = Some Active" by (simp_all add: live_def)
  have 1: "play_loop_step s1 = Some ?s2" using r(3) e(1) by (rule step_ready)
  have 2: "play_loop_step ?s2 = Some s3"
    unfolding s3_def using r(4) by (intro step_idle [OF e(2)]) simp_all
  have tt: "run [Tick, Tick] s1 = Some s3" by (simp add: 1 2)
  have "replicate (2 * length frags + 2) Tick =
      replicate (2 * length frags) Tick @ replicate 2 Tick"
    by (rule replicate_add)
  moreover have "replicate 2 Tick = [Tick, Tick]" by (simp add: numeral_2_eq_2)
  ultimately have "batch frags = (map Play frags @ replicate (2 * length frags) Tick) @ [Tick, Tick]"
    by (simp add: batch_def)
  moreover have "run (map Play frags @ replicate (2 * length frags) Tick) (started (int c)) = Some s1"
    by (simp add: run_append p r(1))
  ultimately have "run (batch frags) (started (int c)) = Some s3"
    by (simp only: run_append [of _ "[Tick, Tick]"] tt option.case)
  moreover have "queue s3 = []" "buffer s3 = []" "thread s3 = Some Ready"
    using r(4) by (simp_all add: s3_def)
  moreover have "writes (trace s3) = frames c (concat frags)"
    using b t by (simp add: s3_def frames_def writes_append writes_map_SinkWrite)
  ultimately show ?thesis by blast
qed

lemma length_leftover_mod: "0 < c \<Longrightarrow> length (leftover c xs) = length xs mod c"
proof (induction c xs rule: leftover.induct)
  case (1 c xs)
  show ?case
  proof (cases "length xs < c")
    case True
    then show ?thesis by (simp add: leftover.simps [of c xs])
  next
    case False
    with 1 have "length (leftover c (drop c xs)) = (length xs - c) mod c" by simp
    with False 1(2) show ?thesis by (simp add: leftover.simps [of c xs] le_mod_geq)
  qed
qed

lemma lengths_full_frames:
  "0 < c \<Longrightarrow> map length (full_frames c xs) = replicate (length xs div c) c"
proof (induction c xs rule: full_frames.induct)
  case (1 c xs)
  show ?case
  proof (cases "length xs < c")
    case True
    then show ?thesis by (simp add: full_frames.simps [of c xs])
  next
    case False
    with 1 have "map length (full_frames c (drop c xs)) = replicate ((length xs - c) div c) c"
      by simp
    with False 1(2) show ?thesis
      by (simp add: full_frames.simps [of c xs] le_div_geq)
  qed
qed





lemma live_started_int: "0 < c \<Longrightarrow> live (nat c) (started c)"
  by (simp add: live_def started_def new_speaker_def)

lemma started_fields:
  "queue (started c) = []" "buffer (started c) = []" "trace (started c) = [SinkOpen, SinkStart]"
  "stream (started c) = Some Active" "chunk (started c) = c" "thread (started c) = Some Ready"
  "exit_flag (started c) = False"
  by (simp_all add: started_def new_speaker_def)

lemma run_started:
  assumes "0 < c"
  shows "\<exists>s. run acts (started c) = Some s \<and> live (nat c) s \<and>
      concat (writes (trace s)) @ buffer s @ concat (queue s) = concat (played acts) \<and>
      (\<exists>k. queue s = drop k (played acts)) \<and>
      (\<forall>w \<in> set (writes (trace s)). 0 < length w \<and> length w \<le> nat c)"
proof -
  from assms have "0 < nat c" by simp
  from run_live [OF this live_started_int [OF assms], of acts]
  show ?thesis by (auto simp: started_fields)
qed

lemma concat_split_two:
  assumes "i < j" "j < length xs"
  shows "concat xs = concat (take i xs) @ xs ! i @
     concat (take (j - Suc i) (drop (Suc i) xs)) @ xs ! j @ concat (drop (Suc j) xs)"
proof -
  let ?ys = "drop (Suc i) xs"
  from assms have i: "i < length xs" by simp
  from assms have j: "j - Suc i < length ?ys" by simp
  have "xs = take i xs @ xs ! i # ?ys" using i by (rule id_take_nth_drop)
  then have 1: "concat xs = concat (take i xs) @ xs ! i @ concat ?ys"
    by (metis concat.simps(2) concat_append)
  have "?ys = take (j - Suc i) ?ys @ ?ys ! (j - Suc i) # drop (Suc (j - Suc i)) ?ys"
    using j by (rule id_take_nth_drop)
  then have "concat ?ys = concat (take (j - Suc i) ?ys) @ ?ys ! (j - Suc i) @
      concat (drop (Suc (j - Suc i)) ?ys)"
    by (metis concat.simps(2) concat_append)
  moreover from assms have "?ys ! (j - Suc i) = xs ! j" by simp
  moreover from assms have "drop (Suc (j - Suc i)) ?ys = drop (Suc j) xs" by simp
  ultimately show ?thesis using 1 by simp
qed





text \<open>
  Claim C3, as amended. As long as the sink accepts every write, for every schedule on a
  started engine with a positive frame size: the pending queue is a suffix of the fragments
  in arrival order (the single consumer takes the oldest first), nothing is dropped
  (written bytes, buffer and queue together are all the enqueued bytes in arrival order),
  and for any fragment \<open>A\<close> enqueued before a fragment \<open>B\<close> the bytes of \<open>A\<close> stand before
  the bytes of \<open>B\<close> in that stream. Bytes are dropped, besides a hard stop, when the sink
  rejects a write during slicing: the frame was cut off the buffer before the write, the
  exception is swallowed, and the loop goes on with the rest of the buffer, the frame
  neither written nor kept.
\<close>

theorem fifo_arrival_order:
  "(0 < c \<longrightarrow>
      (\<exists>s. run acts (started c) = Some s \<and>
         (\<exists>k. queue s = drop k (played acts)) \<and>
         concat (writes (trace s)) @ buffer s @ concat (queue s) = concat (played acts) \<and>
         (\<forall>i j. i < j \<and> j < length (played acts) \<longrightarrow>
            concat (writes (trace s)) @ buffer s @ concat (queue s) =
            concat (take i (played acts)) @ played acts ! i @
            concat (take (j - Suc i) (drop (Suc i) (played acts))) @ played acts ! j @
            concat (drop (Suc j) (played acts))))) \<and>
   (stream t \<noteq> Some Active \<and> thread t = Some Waiting \<and> queue t = d # q \<and>
    chunk t \<le> int (length (buffer t @ d)) \<longrightarrow>
      (\<exists>t'. play_loop_step t = Some t' \<and> thread t' = Some Ready \<and>
         exit_flag t' = exit_flag t \<and> queue t' = q \<and>
         buffer t' = slice_from (chunk t) (buffer t @ d) \<and>
         writes (trace t') = writes (trace t)))"
proof (intro conjI impI)
  assume c: "0 < c"
  from run_started [OF c, of acts] obtain s where
    s: "run acts (started c) = Some s" "\<exists>k. queue s = drop k (played acts)"
       "concat (writes (trace s)) @ buffer s @ concat (queue s) = concat (played acts)"
    by blast
  have "\<forall>i j. i < j \<and> j < length (played acts) \<longrightarrow>
         concat (writes (trace s)) @ buffer s @ concat (queue s) =
         concat (take i (played acts)) @ played acts ! i @
         concat (take (j - Suc i) (drop (Suc i) (played acts))) @ played acts ! j @
         concat (drop (Suc j) (played acts))"
    using s(3) concat_split_two [of _ _ "played acts"] by simp
  with s show "\<exists>s. run acts (started c) = Some s \<and>
         (\<exists>k. queue s = drop k (played acts)) \<and>
         concat (writes (trace s)) @ buffer s @ concat (queue s) = concat (played acts) \<and>
         (\<forall>i j. i < j \<and> j < length (played acts) \<longrightarrow>
            concat (writes (trace s)) @ buffer s @ concat (queue s) =
            concat (take i (played acts)) @ played acts ! i @
            concat (take (j - Suc i) (drop (Suc i) (played acts))) @ played acts ! j @
            concat (drop (Suc j) (played acts)))"
    by blast
next
  assume a: "stream t \<noteq> Some Active \<and> thread t = Some Waiting \<and> queue t = d # q \<and>
    chunk t \<le> int (length (buffer t @ d))"
  then have 1: "stream t \<noteq> Some Active" and 2: "thread t = Some Waiting"
    and 3: "queue t = d # q" and 4: "chunk t \<le> int (length (buffer t @ d))" by simp_all
  from step_rejected [OF 1 2 3 4]
  show "\<exists>t'. play_loop_step t = Some t' \<and> thread t' = Some Ready \<and>
         exit_flag t' = exit_flag t \<and> queue t' = q \<and>
         buffer t' = slice_from (chunk t) (buffer t @ d) \<and>
         writes (trace t') = writes (trace t)"
    by (simp add: writes_append)
qed

theorem fifo_arrival_order_witness:
  "(0::int) < 2 \<and>
   map_option observe
     (run [Play [1, 2, 3], Tick, Play [4], Tick, Play [5, 6], Tick, Tick, Tick, Tick, Tick, Tick]
        (started 2)) = Some ([], [], [[1, 2], [3, 4], [5, 6]]) \<and>
   (0::nat) < 2 \<and> 2 < length (played [Play [1, 2, 3], Tick, Play [4], Tick, Play [5, 6], Tick,
      Tick, Tick, Tick, Tick, Tick]) \<and>
   concat [[1, 2], [3, 4], [5, 6 :: byte]] = [] @ [1, 2, 3] @ concat [[4]] @ [5, 6] @ [] \<and>
   stream ((rejecting 2)\<lparr>thread := Some Waiting, queue := [[1, 2, 3]]\<rparr>) \<noteq> Some Active \<and>
   chunk ((rejecting 2)\<lparr>thread := Some Waiting, queue := [[1, 2, 3]]\<rparr>) \<le>
     int (length (buffer ((rejecting 2)\<lparr>thread := Some Waiting, queue := [[1, 2, 3]]\<rparr>) @
        [1, 2, 3 :: byte])) \<and>
   map_option observe
     (play_loop_step ((rejecting 2)\<lparr>thread := Some Waiting, queue := [[1, 2, 3]]\<rparr>)) =
     Some ([], [3], [])"
proof -
  let ?A = "[Play [1, 2, 3], Tick, Play [4], Tick, Play [5, 6], Tick, Tick, Tick, Tick, Tick,
      Tick]"
  let ?t = "(rejecting 2)\<lparr>thread := Some Waiting, queue := [[1, 2, 3]]\<rparr>"
  have e: "map_option observe (run ?A (started 2)) = Some ([], [], [[1, 2], [3, 4], [5, 6]])"
    by code_simp
  have f: "stream ?t \<noteq> Some Active" "thread ?t = Some Waiting" "queue ?t = [1, 2, 3] # []"
    "chunk ?t \<le> int (length (buffer ?t @ [1, 2, 3]))" "buffer ?t = []" "chunk ?t = 2"
    "writes (trace ?t) = []"
    by (simp_all add: rejecting_def started_def new_speaker_def)
  from fifo_arrival_order [of 2 ?A ?t "[1, 2, 3]" "[]"] f
  obtain t' where t': "play_loop_step ?t = Some t'" "queue t' = []"
    "buffer t' = slice_from (chunk ?t) (buffer ?t @ [1, 2, 3])" "writes (trace t') = writes (trace ?t)"
    by auto
  from t' f have "map_option observe (play_loop_step ?t) = Some ([], [3], [])"
    by (simp add: observe_def slice_from_def)
  with fifo_arrival_order [of 2 ?A] e f show ?thesis by (auto simp: observe_def)
qed

text \<open>
  Claim C3 as stated fails: with a sink that rejects the write, five bytes enqueued at
  frame size 2 leave three bytes in the buffer and nothing written; the first frame is
  dropped although the engine was not stopped (the exit flag is clear, the thread goes on).
\<close>

theorem rejected_write_drops_frame:
  "map_option observe (run [Play [1, 2, 3, 4, 5], Tick, Tick] (rejecting 2)) =
     Some ([], [3, 4, 5], []) \<and>
   map_option thread (run [Play [1, 2, 3, 4, 5], Tick, Tick] (rejecting 2)) =
     Some (Some Ready) \<and>
   map_option exit_flag (run [Play [1, 2, 3, 4, 5], Tick, Tick] (rejecting 2)) = Some False \<and>
   concat [] @ [3, 4, 5] @ concat [] \<noteq> concat (played [Play [1, 2, 3, 4, 5 :: byte], Tick, Tick])"
  by code_simp

lemma lengths_frames:
  assumes c: "0 < c"
  shows "map length (frames c xs) =
     replicate (length xs div c) c @ (if length xs mod c = 0 then [] else [length xs mod c])"
proof -
  have "leftover c xs = [] \<longleftrightarrow> length xs mod c = 0"
    using length_leftover_mod [OF c, of xs] by (metis length_0_conv)
  with c length_leftover_mod [of c xs] show ?thesis
    by (simp add: frames_def lengths_full_frames)
qed

lemma scenario_lengths:
  assumes "length a = 10" "length b = 5000" "length d = 3"
  shows "\<exists>s. run (batch [a, b, d]) (started CHUNK) = Some s \<and> queue s = [] \<and> buffer s = [] \<and>
     map length (writes (trace s)) = [4096, 917]"
proof -
  have c: "(0::nat) < 4096" by simp
  define xs where "xs = concat [a, b, d]"
  have i: "int 4096 = CHUNK" by (simp add: CHUNK_def)
  from batch_run [OF c, of "[a, b, d]"] obtain s where
    s: "run (batch [a, b, d]) (started CHUNK) = Some s" "queue s = []" "buffer s = []"
       "writes (trace s) = frames 4096 xs"
    unfolding i xs_def by blast
  have "length xs = 5013" using assms by (simp add: xs_def)
  with lengths_frames [OF c, of xs]
  have "map length (frames 4096 xs) = [4096, 917]"
    by simp
  with s show ?thesis by auto
qed








lemma scenario_before_idle:
  assumes "length a = 10" "length b = 5000" "length d = 3"
  shows "\<exists>s. run (map Play [a, b, d] @ replicate 6 Tick) (started CHUNK) = Some s \<and>
     queue s = [] \<and> length (buffer s) = 917 \<and> map length (writes (trace s)) = [4096]"
proof -
  have c: "(0::nat) < 4096" by simp
  define xs where "xs = concat [a, b, d]"
  define fr where "fr = [a, b, d]"
  let ?s0 = "(started CHUNK)\<lparr>queue := fr\<rparr>"
  have p: "run (map Play fr) (started CHUNK) = Some ?s0"
    by (simp only: run_plays) (simp add: started_def new_speaker_def)
  have l0: "live 4096 ?s0" by (simp add: live_def started_def new_speaker_def CHUNK_def)
  have "thread ?s0 = Some Ready" "queue ?s0 = fr" by (simp_all add: started_def)
  from drain [OF c l0 this] obtain s1 where
    r: "run (replicate (2 * length fr) Tick) ?s0 = Some s1" "queue s1 = []" and
    b: "buffer s1 = leftover 4096 (buffer ?s0 @ concat fr)" and
    t: "trace s1 = trace ?s0 @ map SinkWrite (full_frames 4096 (buffer ?s0 @ concat fr))"
    by blast
  have len: "length xs = 5013" using assms by (simp add: xs_def)
  have b': "buffer s1 = leftover 4096 xs" using b by (simp add: started_fields xs_def fr_def)
  have t': "writes (trace s1) = full_frames 4096 xs"
    using t by (simp add: started_fields xs_def fr_def writes_append writes_map_SinkWrite)
  from b' len length_leftover_mod [OF c, of xs]
  have L: "length (buffer s1) = 917" by simp
  from t' len lengths_full_frames [OF c, of xs]
  have W: "map length (writes (trace s1)) = [4096]" by simp
  have six: "2 * length fr = 6" by (simp add: fr_def)
  from r(1) have "run (replicate 6 Tick) ?s0 = Some s1" by (simp only: six)
  with p have "run (map Play fr @ replicate 6 Tick) (started CHUNK) = Some s1"
    by (simp only: run_append option.case)
  then have R: "run (map Play [a, b, d] @ replicate 6 Tick) (started CHUNK) = Some s1"
    unfolding fr_def .
  show ?thesis
  proof (intro exI conjI)
    show "run (map Play [a, b, d] @ replicate 6 Tick) (started CHUNK) = Some s1" by (rule R)
    show "queue s1 = []" by (rule r(2))
    show "length (buffer s1) = 917" by (rule L)
    show "map length (writes (trace s1)) = [4096]" by (rule W)
  qed
qed


text \<open>
  Claim C5 as stated fails: the three fragments hold 5013 bytes, one frame of 4096 and 917
  more, so there is one full write, not two, and the short write has 917 bytes.
\<close>

theorem scenario_one_full_write:
  "map_option write_sizes
     (run (batch [replicate 10 0, replicate 5000 0, replicate 3 0]) (started CHUNK)) =
     Some [4096, 917] \<and>
   [4096, 917] \<noteq> [4096, 4096, nat (10 + 5000 + 3 - 2 * 4096)]"
proof -
  define a b d :: bytes where "a = replicate 10 0" and "b = replicate 5000 0"
    and "d = replicate 3 0"
  have l: "length a = 10" "length b = 5000" "length d = 3" by (simp_all add: a_def b_def d_def)
  from scenario_lengths [OF l] obtain s where
    s: "run (batch [a, b, d]) (started CHUNK) = Some s"
       "map length (writes (trace s)) = [4096, 917]"
    by (elim exE conjE)
  have "map_option write_sizes (run (batch [a, b, d]) (started CHUNK)) = Some [4096, 917]"
    by (simp only: s option.map write_sizes_def)
  then show ?thesis unfolding a_def b_def d_def by simp
qed

text \<open>
  Claim C5, as amended. When fragments of 10, 5000 and 3 bytes are enqueued at frame size
  4096, the playback loop has made exactly one full write of 4096 bytes when the three
  fragments are taken, with 917 bytes left in the buffer, and the idle pass adds one final
  short write of \<open>(10 + 5000 + 3) - 4096 = 917\<close> bytes.
\<close>

theorem scenario_10_5000_3:
  assumes "length a = 10" "length b = 5000" "length d = 3"
  shows "(\<exists>s. run (map Play [a, b, d] @ replicate 6 Tick) (started CHUNK) = Some s \<and>
            queue s = [] \<and> length (buffer s) = 917 \<and> write_sizes s = [4096]) \<and>
         (\<exists>s. run (batch [a, b, d]) (started CHUNK) = Some s \<and>
            queue s = [] \<and> buffer s = [] \<and> write_sizes s = [4096, 917])"
  unfolding write_sizes_def
  using scenario_before_idle [OF assms] scenario_lengths [OF assms] by (rule conjI)

theorem scenario_10_5000_3_witness:
  "length (replicate 10 (1::byte)) = 10 \<and> length (replicate 5000 (2::byte)) = 5000 \<and>
   length (replicate 3 (3::byte)) = 3 \<and>
   map_option write_sizes
     (run (map Play [replicate 10 1, replicate 5000 2, replicate 3 3] @ replicate 6 Tick)
        (started CHUNK)) = Some [4096] \<and>
   map_option write_sizes
     (run (batch [replicate 10 1, replicate 5000 2, replicate 3 3]) (started CHUNK)) =
     Some [4096, 917]"
proof -
  define a b d :: bytes where "a = replicate 10 1" and "b = replicate 5000 2"
    and "d = replicate 3 3"
  have l: "length a = 10" "length b = 5000" "length d = 3" by (simp_all add: a_def b_def d_def)
  from scenario_10_5000_3 [OF l] obtain s1 s2 where
    s: "run (map Play [a, b, d] @ replicate 6 Tick) (started CHUNK) = Some s1"
       "write_sizes s1 = [4096]"
       "run (batch [a, b, d]) (started CHUNK) = Some s2"
       "write_sizes s2 = [4096, 917]"
    by (elim exE conjE)
  have "map_option write_sizes
     (run (map Play [a, b, d] @ replicate 6 Tick) (started CHUNK)) = Some [4096]"
    "map_option write_sizes (run (batch [a, b, d]) (started CHUNK)) = Some [4096, 917]"
    by (simp_all only: s option.map)
  with l show ?thesis unfolding a_def b_def d_def by (intro conjI)
qed


text \<open>
  Claim C6, as amended. As long as the sink accepts every write, on a started engine with a
  positive frame size, at every point between two steps of the playback loop, whatever the
  schedule, the buffer is shorter than one frame; the pass that appends and slices a
  fragment is one step, after which the buffer is again shorter than one frame, and after
  an idle flush it is empty. When the sink rejects a write during slicing, the pass ends
  there, with one frame cut off and the rest of the buffer, which may be a frame or more,
  left in place, and the loop goes on.
\<close>

theorem buffer_below_frame:
  "(0 < c \<longrightarrow>
      (\<exists>s. run acts (started c) = Some s \<and> length (buffer s) < nat c \<and>
         (thread s = Some Waiting \<longrightarrow>
            (\<exists>s'. play_loop_step s = Some s' \<and> length (buffer s') < nat c \<and>
                  (queue s = [] \<longrightarrow> buffer s' = []))))) \<and>
   (stream t \<noteq> Some Active \<and> thread t = Some Waiting \<and> queue t = d # q \<and>
    0 < chunk t \<and> chunk t \<le> int (length (buffer t @ d)) \<longrightarrow>
      (\<exists>t'. play_loop_step t = Some t' \<and> thread t' = Some Ready \<and>
         exit_flag t' = exit_flag t \<and>
         buffer t' = drop (nat (chunk t)) (buffer t @ d) \<and>
         length (buffer t') = length (buffer t @ d) - nat (chunk t)))"
proof (intro conjI impI)
  assume c0: "0 < c"
  then have c: "0 < nat c" by simp
  from run_started [OF c0, of acts] obtain s where
    s: "run acts (started c) = Some s" "live (nat c) s" by blast
  from step_live [OF c s(2)] obtain s' where
    s': "play_loop_step s = Some s'" "live (nat c) s'" by blast
  have "buffer s' = []" if w: "thread s = Some Waiting" and q: "queue s = []"
  proof -
    from s(2) have "stream s = Some Active" by (simp add: live_def)
    from step_idle [OF this w q] s'(1) show ?thesis by (auto split: if_splits)
  qed
  with s s' show "\<exists>s. run acts (started c) = Some s \<and> length (buffer s) < nat c \<and>
         (thread s = Some Waiting \<longrightarrow>
            (\<exists>s'. play_loop_step s = Some s' \<and> length (buffer s') < nat c \<and>
                  (queue s = [] \<longrightarrow> buffer s' = [])))"
    by (auto simp: live_def)
next
  assume a: "stream t \<noteq> Some Active \<and> thread t = Some Waiting \<and> queue t = d # q \<and>
    0 < chunk t \<and> chunk t \<le> int (length (buffer t @ d))"
  then have 1: "stream t \<noteq> Some Active" and 2: "thread t = Some Waiting"
    and 3: "queue t = d # q" and 4: "chunk t \<le> int (length (buffer t @ d))"
    and 5: "0 < chunk t" by simp_all
  from step_rejected [OF 1 2 3 4] 5
  show "\<exists>t'. play_loop_step t = Some t' \<and> thread t' = Some Ready \<and>
         exit_flag t' = exit_flag t \<and>
         buffer t' = drop (nat (chunk t)) (buffer t @ d) \<and>
         length (buffer t') = length (buffer t @ d) - nat (chunk t)"
    by (simp add: slice_from_def)
qed

theorem buffer_below_frame_witness:
  "(0::int) < 2 \<and>
   map_option observe (run [Play [1, 2, 3], Tick, Tick, Tick] (started 2)) =
     Some ([], [3], [[1, 2]]) \<and>
   map_option thread (run [Play [1, 2, 3], Tick, Tick, Tick] (started 2)) =
     Some (Some Waiting) \<and>
   map_option observe (run ([Play [1, 2, 3], Tick, Tick, Tick] @ [Tick]) (started 2)) =
     Some ([], [], [[1, 2], [3]]) \<and>
   stream ((rejecting 2)\<lparr>thread := Some Waiting, queue := [[1, 2, 3, 4, 5, 6]]\<rparr>) \<noteq>
     Some Active \<and>
   0 < chunk ((rejecting 2)\<lparr>thread := Some Waiting, queue := [[1, 2, 3, 4, 5, 6]]\<rparr>) \<and>
   map_option buffer
     (play_loop_step ((rejecting 2)\<lparr>thread := Some Waiting,
        queue := [[1, 2, 3, 4, 5, 6]]\<rparr>)) = Some [3, 4, 5, 6]"
proof -
  let ?A = "[Play [1, 2, 3], Tick, Tick, Tick]"
  let ?t = "(rejecting 2)\<lparr>thread := Some Waiting, queue := [[1, 2, 3, 4, 5, 6]]\<rparr>"
  have e: "map_option observe (run ?A (started 2)) = Some ([], [3], [[1, 2]])"
    "map_option thread (run ?A (started 2)) = Some (Some Waiting)"
    "map_option observe (run (?A @ [Tick]) (started 2)) = Some ([], [], [[1, 2], [3]])"
    by code_simp+
  have f: "stream ?t \<noteq> Some Active" "thread ?t = Some Waiting"
    "queue ?t = [1, 2, 3, 4, 5, 6] # []" "0 < chunk ?t"
    "chunk ?t \<le> int (length (buffer ?t @ [1, 2, 3, 4, 5, 6]))" "buffer ?t = []" "chunk ?t = 2"
    by (simp_all add: rejecting_def started_def new_speaker_def)
  from buffer_below_frame [of 2 ?A ?t "[1, 2, 3, 4, 5, 6]" "[]"] f
  obtain t' where t': "play_loop_step ?t = Some t'"
    "buffer t' = drop (nat (chunk ?t)) (buffer ?t @ [1, 2, 3, 4, 5, 6])"
    by auto
  from t' f have "map_option buffer (play_loop_step ?t) = Some [3, 4, 5, 6]"
    by simp
  with buffer_below_frame [of 2 ?A] e f show ?thesis by (auto simp: observe_def)
qed

text \<open>
  Claim C6 as stated fails: with a sink that rejects the write, seven bytes enqueued at
  frame size 3 leave four bytes in the buffer when the pass is over and the thread is back
  at the test of the loop condition.
\<close>

theorem rejected_write_leaves_frames:
  "map_option observe (run [Play [9, 8, 7, 6, 5, 4, 3], Tick, Tick] (rejecting 3)) =
     Some ([], [6, 5, 4, 3], []) \<and>
   map_option thread (run [Play [9, 8, 7, 6, 5, 4, 3], Tick, Tick] (rejecting 3)) =
     Some (Some Ready) \<and>
   map_option exit_flag (run [Play [9, 8, 7, 6, 5, 4, 3], Tick, Tick] (rejecting 3)) =
     Some False \<and>
   \<not> length [6, 5, 4, 3 :: byte] < nat 3"
  by code_simp



subsection \<open>Stopping the playback engine\<close>

lemma join_ended:
  "thread s \<noteq> Some Ready \<Longrightarrow> thread s \<noteq> Some Waiting \<Longrightarrow> join s = Some s"
  by (subst join.simps) simp

lemma join_ready:
  assumes "thread s = Some Ready" "exit_flag s"
  shows "join s = Some (s\<lparr>thread := Some Finished\<rparr>)"
proof -
  have "join s = join (s\<lparr>thread := Some Finished\<rparr>)"
    using assms by (subst join.simps) (simp add: play_loop_step_def)
  then show ?thesis by (simp add: join_ended)
qed

lemma body_released:
  assumes "stream s = None"
  shows "\<exists>s1 es. play_loop_body s = Some s1 \<and>
      thread s1 = Some (if queue s = [] \<and> buffer s \<noteq> [] then Died else Ready) \<and>
      stream s1 = None \<and> exit_flag s1 = exit_flag s \<and> chunk s1 = chunk s \<and>
      queue s1 = tl (queue s) \<and> trace s1 = trace s @ es \<and>
      (es = [] \<or> (\<exists>b. es = [SinkWriteFailed b]) \<or>
       (\<exists>b. es = [SinkWriteFailed b, Logged AttributeError]))"
proof (cases "queue s")
  case Nil
  show ?thesis
  proof (cases "buffer s = []")
    case True
    with Nil have "play_loop_body s = Some (s\<lparr>thread := Some Ready\<rparr>)"
      by (simp add: play_loop_body_def)
    with Nil True assms show ?thesis
      by (intro exI [of _ "s\<lparr>thread := Some Ready\<rparr>"] exI [of _ "[]"]) simp
  next
    case False
    with Nil assms have "play_loop_body s = Some (s\<lparr>thread := Some Died,
               trace := trace s @ [SinkWriteFailed (buffer s)]\<rparr>)"
      by (simp add: play_loop_body_def stream_write_def)
    with Nil False assms show ?thesis
      by (intro exI [of _ "s\<lparr>thread := Some Died,
               trace := trace s @ [SinkWriteFailed (buffer s)]\<rparr>"]
            exI [of _ "[SinkWriteFailed (buffer s)]"]) simp
  qed
next
  case (Cons d q)
  let ?s = "s\<lparr>queue := q, buffer := buffer s @ d\<rparr>"
  from assms have n: "stream ?s \<noteq> Some Active" by simp
  show ?thesis
  proof (cases "chunk s \<le> int (length (buffer s @ d))")
    case True
    let ?r = "s\<lparr>queue := q,
               buffer := slice_from (chunk s) (buffer s @ d), thread := Some Ready,
               trace := trace s @ [SinkWriteFailed (slice_to (chunk s) (buffer s @ d)),
                  Logged AttributeError]\<rparr>"
    from True Cons assms slice_loop_inactive [OF n]
    have "play_loop_body s = Some ?r"
      by (simp add: play_loop_body_def)
    with Cons assms show ?thesis
      by (intro exI [of _ ?r] exI [of _ "[SinkWriteFailed (slice_to (chunk s) (buffer s @ d)),
                  Logged AttributeError]"]) simp
  next
    case False
    let ?r = "s\<lparr>queue := q, buffer := buffer s @ d, thread := Some Ready\<rparr>"
    from False Cons assms slice_loop_inactive [OF n]
    have "play_loop_body s = Some ?r"
      by (simp add: play_loop_body_def)
    with Cons assms show ?thesis
      by (intro exI [of _ ?r] exI [of _ "[]"]) simp
  qed
qed

lemma join_released:
  assumes "stream s = None" "exit_flag s" "thread s \<noteq> None"
  shows "\<exists>s' es. join s = Some s' \<and>
     (thread s' = Some Finished \<or> thread s' = Some Died) \<and>
     stream s' = None \<and> exit_flag s' \<and> chunk s' = chunk s \<and> trace s' = trace s @ es \<and>
     (es = [] \<or> (\<exists>b. es = [SinkWriteFailed b]) \<or>
       (\<exists>b. es = [SinkWriteFailed b, Logged AttributeError]))"
proof -
  from assms(3) obtain t where t: "thread s = Some t" by auto
  show ?thesis
  proof (cases t)
    case Ready
    with t assms join_ready [of s] show ?thesis by auto
  next
    case Finished
    with t assms join_ended [of s] show ?thesis by auto
  next
    case Died
    with t assms join_ended [of s] show ?thesis by auto
  next
    case Waiting
    from body_released [OF assms(1)] obtain s1 es where
      b: "play_loop_body s = Some s1" and
      s1: "thread s1 = Some (if queue s = [] \<and> buffer s \<noteq> [] then Died else Ready)"
          "stream s1 = None" "exit_flag s1" "trace s1 = trace s @ es"
          "chunk s1 = chunk s" and
      es: "es = [] \<or> (\<exists>b. es = [SinkWriteFailed b]) \<or>
         (\<exists>b. es = [SinkWriteFailed b, Logged AttributeError])"
      using assms(1,2) by auto
    have j: "join s = join s1"
      using t Waiting b by (subst join.simps) (simp add: play_loop_step_def)
    show ?thesis
    proof (cases "queue s = [] \<and> buffer s \<noteq> []")
      case True
      with s1 have "join s1 = Some s1" by (simp add: join_ended)
      with j s1 es True show ?thesis by auto
    next
      case False
      with s1 have "join s1 = Some (s1\<lparr>thread := Some Finished\<rparr>)"
        by (intro join_ready) simp_all
      with j s1 es show ?thesis by auto
    qed
  qed
qed


lemma writes_shapes:
  "es = [] \<or> (\<exists>b. es = [SinkWriteFailed b]) \<or>
       (\<exists>b. es = [SinkWriteFailed b, Logged AttributeError]) \<Longrightarrow> writes es = []"
  by auto

lemma stop_total:
  "\<exists>s' es. stop s = Some s' \<and> exit_flag s' \<and> stream s' = None \<and> thread s' = None \<and>
     queue s' = [] \<and> chunk s' = chunk s \<and>
     trace s' = trace s @ (if stream s = None then [] else [SinkStop, SinkClose]) @ es @
        (if thread s = None then [] else [Joined]) \<and>
     (thread s = None \<longrightarrow> es = [] \<and> buffer s' = buffer s) \<and>
     (es = [] \<or> (\<exists>b. es = [SinkWriteFailed b]) \<or>
       (\<exists>b. es = [SinkWriteFailed b, Logged AttributeError]))"
proof -
  let ?r = "stop_release (s\<lparr>exit_flag := True\<rparr>)"
  have r: "stream ?r = None" "exit_flag ?r" "thread ?r = thread s" "chunk ?r = chunk s"
    "trace ?r = trace s @ (if stream s = None then [] else [SinkStop, SinkClose])"
    "buffer ?r = buffer s"
    by (simp_all add: stop_release_def)
  show ?thesis
  proof (cases "thread s = None")
    case True
    with r have "stop s = Some (?r\<lparr>queue := []\<rparr>)"
      by (simp add: stop_def stop_join_def)
    with r True show ?thesis by auto
  next
    case False
    with r have "thread ?r \<noteq> None" by simp
    from join_released [OF r(1,2) this] obtain s1 es where
      j: "join ?r = Some s1" "stream s1 = None" "exit_flag s1" "trace s1 = trace ?r @ es"
         "chunk s1 = chunk ?r" and
      es: "es = [] \<or> (\<exists>b. es = [SinkWriteFailed b]) \<or>
         (\<exists>b. es = [SinkWriteFailed b, Logged AttributeError])"
      by blast
    from j(1) False r(3) have "stop s =
        Some (s1\<lparr>thread := None, trace := trace s1 @ [Joined], queue := []\<rparr>)"
      by (simp add: stop_def stop_join_def)
    with j r es False show ?thesis by auto
  qed
qed




subsection \<open>The stream session\<close>

lemma exports_append: "exports (es @ fs) = exports es @ exports fs"
  by (induction es rule: exports.induct) simp_all

lemma sink_closes_append: "sink_closes (es @ fs) = sink_closes es + sink_closes fs"
  by (induction es rule: sink_closes.induct) simp_all

lemma sink_closes_writes: "sink_closes (map SinkWrite ws) = 0"
  by (induction ws) simp_all

lemma sink_closes_shapes:
  "es = [] \<or> (\<exists>b. es = [SinkWriteFailed b]) \<or>
       (\<exists>b. es = [SinkWriteFailed b, Logged AttributeError]) \<Longrightarrow> sink_closes es = 0"
  by auto

lemma step_live_trace:
  assumes "0 < c" "live c s"
  shows "\<exists>s' ws. play_loop_step s = Some s' \<and> live c s' \<and>
     trace s' = trace s @ map SinkWrite ws"
proof (cases "thread s = Some Ready")
  case True
  with assms have "play_loop_step s = Some (s\<lparr>thread := Some Waiting\<rparr>)"
    by (simp add: step_ready live_def)
  moreover from assms have "live c (s\<lparr>thread := Some Waiting\<rparr>)" by (simp add: live_def)
  moreover have "trace (s\<lparr>thread := Some Waiting\<rparr>) = trace s @ map SinkWrite []" by simp
  ultimately show ?thesis by blast
next
  case False
  with assms have w: "thread s = Some Waiting" by (auto simp: live_def)
  from assms have a: "stream s = Some Active" by (simp add: live_def)
  show ?thesis
  proof (cases "queue s")
    case Nil
    let ?r = "if buffer s = [] then s\<lparr>thread := Some Ready\<rparr>
           else s\<lparr>trace := trace s @ [SinkWrite (buffer s)], buffer := [],
                  thread := Some Ready\<rparr>"
    have "play_loop_step s = Some ?r" by (rule step_idle [OF a w Nil])
    moreover from assms have "live c ?r" by (simp add: live_def)
    moreover have "trace ?r = trace s @ map SinkWrite (if buffer s = [] then [] else [buffer s])"
      by simp
    ultimately show ?thesis by blast
  next
    case (Cons d q)
    let ?r = "s\<lparr>queue := q, buffer := leftover c (buffer s @ d),
              trace := trace s @ map SinkWrite (full_frames c (buffer s @ d)),
              thread := Some Ready\<rparr>"
    have "play_loop_step s = Some ?r" by (rule step_got [OF assms w Cons])
    moreover from assms have "live c ?r" by (simp add: live_def length_leftover)
    moreover have "trace ?r = trace s @ map SinkWrite (full_frames c (buffer s @ d))" by simp
    ultimately show ?thesis by blast
  qed
qed

lemma step_stopped: "thread s = None \<Longrightarrow> play_loop_step s = Some s"
  by (simp add: play_loop_step_def)

lemma finalize_inv:
  assumes "live ch (speaker c)" "exports (ctrace c) = []"
    "sink_closes (trace (speaker c)) = 0"
  shows "\<exists>c'. finalize c = Some c' \<and> receiver c' = RDone \<and> finalized c' \<and>
     conn_open c' = conn_open c \<and> c_exit c' = c_exit c \<and> inbox c' = inbox c \<and>
     audio_data c' = audio_data c \<and>
     ctrace c' = ctrace c @ [Exported (save_to_wav (audio_data c))]"
proof -
  from assms(1) have l: "stream (speaker c) \<noteq> None" "thread (speaker c) \<noteq> None"
    by (auto simp: live_def)
  from stop_total [of "speaker c"] obtain sp es where
    sp: "stop (speaker c) = Some sp" "exit_flag sp" "stream sp = None" "thread sp = None"
      "trace sp = trace (speaker c) @
         (if stream (speaker c) = None then [] else [SinkStop, SinkClose]) @ es @
         (if thread (speaker c) = None then [] else [Joined])" and
    es: "es = [] \<or> (\<exists>b. es = [SinkWriteFailed b]) \<or>
       (\<exists>b. es = [SinkWriteFailed b, Logged AttributeError])"
    by blast
  from es have "sink_closes es = 0" by (rule sink_closes_shapes)
  with sp(5) l assms(3) have "sink_closes (trace sp) = 1"
    by (simp add: sink_closes_append)
  with sp assms(2) show ?thesis
    by (simp add: finalize_def finalized_def exports_append)
qed


lemma inv_done: "receiver c = RDone \<Longrightarrow> session_inv ch c \<longleftrightarrow> finalized c"
  by (simp add: session_inv_def)

lemma inv_running:
  "receiver c \<noteq> RDone \<Longrightarrow> session_inv ch c \<longleftrightarrow>
     live ch (speaker c) \<and> exports (ctrace c) = [] \<and> sink_closes (trace (speaker c)) = 0"
  by (simp add: session_inv_def)

lemma receiver_step_inv:
  assumes "session_inv ch c"
  shows "\<exists>c' es. receiver_step c = Some c' \<and> session_inv ch c' \<and>
     conn_open c' = conn_open c \<and> c_exit c' = c_exit c \<and> ctrace c' = ctrace c @ es"
proof (cases "receiver c")
  case RDone
  then have "receiver_step c = Some c" by (simp add: receiver_step_def)
  with assms show ?thesis by auto
next
  case RReady
  with assms have r: "live ch (speaker c)" "exports (ctrace c) = []"
    "sink_closes (trace (speaker c)) = 0" by (simp_all add: inv_running)
  show ?thesis
  proof (cases "c_exit c")
    case True
    from finalize_inv [OF r] obtain c' where
      "finalize c = Some c'" "receiver c' = RDone" "finalized c'"
      "conn_open c' = conn_open c" "c_exit c' = c_exit c"
      "ctrace c' = ctrace c @ [Exported (save_to_wav (audio_data c))]" by blast
    with RReady True show ?thesis by (auto simp: receiver_step_def inv_done)
  next
    case False
    with RReady have "receiver_step c = Some (c\<lparr>receiver := RReceiving\<rparr>)"
      by (simp add: receiver_step_def)
    moreover from r have "session_inv ch (c\<lparr>receiver := RReceiving\<rparr>)"
      by (simp add: inv_running)
    ultimately show ?thesis by auto
  qed
next
  case RReceiving
  with assms have r: "live ch (speaker c)" "exports (ctrace c) = []"
    "sink_closes (trace (speaker c)) = 0" by (simp_all add: inv_running)
  show ?thesis
  proof (cases "inbox c")
    case Nil
    show ?thesis
    proof (cases "conn_open c")
      case True
      with Nil RReceiving have "receiver_step c = Some c" by (simp add: receiver_step_def)
      with assms show ?thesis by auto
    next
      case False
      let ?c = "c\<lparr>ctrace := ctrace c @
                     [RecvRaised ConnectionClosed, PrintedError ConnectionClosed]\<rparr>"
      from r have "live ch (speaker ?c)" "exports (ctrace ?c) = []"
        "sink_closes (trace (speaker ?c)) = 0" by (simp_all add: exports_append)
      from finalize_inv [OF this] obtain c' where
        "finalize ?c = Some c'" "receiver c' = RDone" "finalized c'"
        "conn_open c' = conn_open ?c" "c_exit c' = c_exit ?c"
        "ctrace c' = ctrace ?c @ [Exported (save_to_wav (audio_data ?c))]" by blast
      with RReceiving Nil False show ?thesis by (auto simp: receiver_step_def inv_done)
    qed
  next
    case (Cons m ms)
    show ?thesis
    proof (cases m)
      case (MBytes b)
      let ?c = "c\<lparr>inbox := ms, speaker := play b (speaker c),
                          audio_data := audio_data c @ [b], receiver := RReady\<rparr>"
      from RReceiving Cons MBytes have "receiver_step c = Some ?c"
        by (simp add: receiver_step_def)
      moreover from r have "session_inv ch ?c"
        by (simp add: inv_running play_live) (simp add: play_def)
      ultimately show ?thesis by auto
    next
      case (MText x)
      let ?c = "c\<lparr>inbox := ms, receiver := RReady, ctrace := ctrace c @ [Printed x]\<rparr>"
      from RReceiving Cons MText have "receiver_step c = Some ?c"
        by (simp add: receiver_step_def)
      moreover from r have "session_inv ch ?c" by (simp add: inv_running exports_append)
      ultimately show ?thesis by auto
    next
      case MNone
      let ?c = "c\<lparr>inbox := ms, receiver := RReady\<rparr>"
      from RReceiving Cons MNone have "receiver_step c = Some ?c"
        by (simp add: receiver_step_def)
      moreover from r have "session_inv ch ?c" by (simp add: inv_running)
      ultimately show ?thesis by auto
    next
      case MOther
      let ?c = "c\<lparr>inbox := ms, receiver := RReady\<rparr>"
      from RReceiving Cons MOther have "receiver_step c = Some ?c"
        by (simp add: receiver_step_def)
      moreover from r have "session_inv ch ?c" by (simp add: inv_running)
      ultimately show ?thesis by auto
    qed
  qed
qed

lemma receiver_step_measure:
  assumes "\<not> conn_open c" "receiver c \<noteq> RDone" "receiver_step c = Some c'"
    "receiver c' \<noteq> RDone"
  shows "2 * length (inbox c') + (if receiver c' = RReady then 1 else 0) <
         2 * length (inbox c) + (if receiver c = RReady then 1 else (0::nat))"
proof (cases "receiver c")
  case RDone
  with assms show ?thesis by simp
next
  case RReady
  with assms show ?thesis
    by (auto simp: receiver_step_def finalize_def split: if_splits option.splits)
next
  case RReceiving
  with assms show ?thesis
    by (auto simp: receiver_step_def finalize_def
        split: if_splits option.splits list.splits message.splits)
qed

lemma join_receiver_closed:
  assumes "session_inv ch c" "\<not> conn_open c"
  shows "\<exists>c' es. join_receiver c = Some c' \<and> receiver c' = RDone \<and> finalized c' \<and>
     ctrace c' = ctrace c @ es \<and> c_exit c' = c_exit c \<and> conn_open c' = conn_open c"
  using assms
proof (induction "2 * length (inbox c) + (if receiver c = RReady then 1 else (0::nat))"
    arbitrary: c rule: less_induct)
  case less
  show ?case
  proof (cases "receiver c = RDone")
    case True
    then have "join_receiver c = Some c" by (subst join_receiver.simps) simp
    with True less.prems show ?thesis by (auto simp: inv_done)
  next
    case False
    from receiver_step_inv [OF less.prems(1)] obtain c1 es1 where
      c1: "receiver_step c = Some c1" "session_inv ch c1" "conn_open c1 = conn_open c"
        "c_exit c1 = c_exit c" "ctrace c1 = ctrace c @ es1"
      by blast
    from False c1(1) have j: "join_receiver c = join_receiver c1"
      by (subst join_receiver.simps) simp
    show ?thesis
    proof (cases "receiver c1 = RDone")
      case True
      then have "join_receiver c1 = Some c1" by (subst join_receiver.simps) simp
      with j True c1 show ?thesis by (auto simp: inv_done)
    next
      case n: False
      from receiver_step_measure [OF less.prems(2) False c1(1) n]
      have "2 * length (inbox c1) + (if receiver c1 = RReady then 1 else 0) <
         2 * length (inbox c) + (if receiver c = RReady then 1 else (0::nat))" .
      from less.hyps [OF this c1(2)] c1(3) less.prems(2) obtain c' es where
        "join_receiver c1 = Some c'" "receiver c' = RDone" "finalized c'"
        "ctrace c' = ctrace c1 @ es" "c_exit c' = c_exit c1" "conn_open c' = conn_open c1"
        by auto
      with j c1 show ?thesis by auto
    qed
  qed
qed


lemma session_inv_same:
  assumes "session_inv ch c" "receiver c' = receiver c" "speaker c' = speaker c"
    "ctrace c' = ctrace c" "audio_data c' = audio_data c"
  shows "session_inv ch c'"
  using assms by (auto simp: session_inv_def finalized_def split: if_splits)

lemma session_inv_sent:
  "session_inv ch (c\<lparr>ctrace := ctrace c @ [Sent m]\<rparr>) = session_inv ch c"
  by (auto simp: session_inv_def finalized_def exports_append split: if_splits)

lemma close_text: "json_dumps close_message = Inr (''{'' @ dq ''type'' @ '': '' @ dq ''Close'' @ ''}'')"
  by code_simp

lemma close_inv:
  assumes "session_inv ch c"
  shows "\<exists>e c'. close c = Some (e, c') \<and> session_inv ch c' \<and> c_exit c' \<and>
     (if conn_open c
      then e = None \<and> receiver c' = RDone \<and> finalized c' \<and> \<not> conn_open c' \<and>
           (\<exists>es. ctrace c' = ctrace c @
               [Sent (''{'' @ dq ''type'' @ '': '' @ dq ''Close'' @ ''}''), ConnClosed] @ es @
               [ReceiverJoined])
      else e = Some ConnectionClosed \<and> c' = c\<lparr>c_exit := True\<rparr>)"
proof (cases "conn_open c")
  case False
  then have "close c = Some (Some ConnectionClosed, c\<lparr>c_exit := True\<rparr>)"
    by (simp add: close_def close_text socket_send_def)
  moreover from assms have "session_inv ch (c\<lparr>c_exit := True\<rparr>)"
    by (rule session_inv_same) simp_all
  ultimately show ?thesis using False by simp
next
  case True
  let ?m = "''{'' @ dq ''type'' @ '': '' @ dq ''Close'' @ ''}''"
  let ?c1 = "c\<lparr>c_exit := True, ctrace := ctrace c @ [Sent ?m], conn_open := False,
      ctrace := (ctrace c @ [Sent ?m]) @ [ConnClosed]\<rparr>"
  have "session_inv ch ?c1 = session_inv ch (c\<lparr>ctrace := ctrace c @ [Sent ?m]\<rparr>)"
    by (auto simp: session_inv_def finalized_def exports_append split: if_splits)
  with assms have i: "session_inv ch ?c1" by (simp only: session_inv_sent)
  have "\<not> conn_open ?c1" by simp
  from join_receiver_closed [OF i this] obtain c2 es where
    c2: "join_receiver ?c1 = Some c2" "receiver c2 = RDone" "finalized c2"
      "ctrace c2 = ctrace ?c1 @ es" "c_exit c2 = c_exit ?c1" "conn_open c2 = conn_open ?c1"
    by blast
  let ?c3 = "c2\<lparr>ctrace := ctrace c2 @ [ReceiverJoined]\<rparr>"
  from True c2(1) have "close c = Some (None, ?c3)"
    by (simp add: close_def close_text socket_send_def)
  moreover from c2 have "finalized ?c3" by (simp add: finalized_def exports_append)
  moreover from c2 have "ctrace ?c3 = ctrace c @ [Sent ?m, ConnClosed] @ es @ [ReceiverJoined]"
    by simp
  ultimately show ?thesis using True c2 by (simp add: inv_done)
qed

lemma cexec_inv:
  assumes "0 < ch" "session_inv ch c"
  shows "\<exists>c'. cexec a c = Some c' \<and> session_inv ch c'"
proof (cases a)
  case (Deliver m)
  from assms(2) have "session_inv ch (if conn_open c then c\<lparr>inbox := inbox c @ [m]\<rparr> else c)"
    by (rule session_inv_same) simp_all
  with Deliver show ?thesis by simp
next
  case Drop
  from assms(2) have "session_inv ch (c\<lparr>conn_open := False\<rparr>)"
    by (rule session_inv_same) simp_all
  with Drop show ?thesis by simp
next
  case RecvStep
  with receiver_step_inv [OF assms(2)] show ?thesis by auto
next
  case PlayStep
  show ?thesis
  proof (cases "receiver c = RDone")
    case True
    with assms(2) have "thread (speaker c) = None" by (simp add: inv_done finalized_def)
    then have "play_loop_step (speaker c) = Some (speaker c)" by (rule step_stopped)
    with PlayStep assms(2) show ?thesis by simp
  next
    case False
    with assms(2) have r: "live ch (speaker c)" "exports (ctrace c) = []"
      "sink_closes (trace (speaker c)) = 0" by (simp_all add: inv_running)
    from step_live_trace [OF assms(1) r(1)] obtain sp ws where
      sp: "play_loop_step (speaker c) = Some sp" "live ch sp"
        "trace sp = trace (speaker c) @ map SinkWrite ws" by blast
    with r False have "session_inv ch (c\<lparr>speaker := sp\<rparr>)"
      by (simp add: inv_running sink_closes_append sink_closes_writes)
    with PlayStep sp(1) show ?thesis by simp
  qed
next
  case (Speak t)
  have "session_inv ch c'" if "speak t c = Inr c'" for c'
    using that assms(2)
    by (auto simp: speak_def socket_send_def session_inv_sent split: sum.splits if_splits)
  with Speak assms(2) show ?thesis by (simp split: sum.splits)
next
  case Flush
  have "session_inv ch c'" if "flush c = Inr c'" for c'
    using that assms(2)
    by (auto simp: flush_def socket_send_def session_inv_sent split: sum.splits if_splits)
  with Flush assms(2) show ?thesis by (simp split: sum.splits)
next
  case Close
  from close_inv [OF assms(2)] obtain e c' where "close c = Some (e, c')" "session_inv ch c'"
    by blast
  with Close show ?thesis by simp
qed

lemma crun_inv:
  assumes "0 < ch"
  shows "session_inv ch c \<Longrightarrow> \<exists>c'. crun acts c = Some c' \<and> session_inv ch c'"
proof (induction acts arbitrary: c)
  case Nil
  then show ?case by simp
next
  case (Cons a acts)
  from cexec_inv [OF assms Cons.prems] obtain c1 where
    c1: "cexec a c = Some c1" "session_inv ch c1" by blast
  from Cons.IH [OF c1(2)] c1(1) show ?case by simp
qed

lemma new_client_inv: "0 < ch \<Longrightarrow> session_inv (nat ch) (new_client (started ch))"
  by (simp add: session_inv_def new_client_def live_started_int started_fields)

text \<open>
  Claim C2. For every schedule of a stream session (messages delivered, the connection
  dropped, steps of both threads, calls of \<^verbatim>\<open>speak\<close>, \<^verbatim>\<open>flush\<close> and \<^verbatim>\<open>close\<close>) on a live
  playback engine with a positive frame size: while the receive thread has not ended there
  is no export and the sink is not closed; once it has ended, for whatever reason, the
  playback engine is stopped (exit flag set, sink closed once, thread joined) and the
  recorded fragments are exported, exactly once. Both ways out lead there: when the
  connection fails or is closed the receive thread runs to its end, and \<^verbatim>\<open>close\<close> on an
  open connection returns with the receive thread ended and finalization done once.
\<close>

theorem finalization_once:
  assumes "0 < ch"
  shows "\<exists>c. crun acts (new_client (started ch)) = Some c \<and>
     (if receiver c = RDone then finalized c
      else exports (ctrace c) = [] \<and> sink_closes (trace (speaker c)) = 0) \<and>
     (\<exists>c'. join_receiver (c\<lparr>conn_open := False\<rparr>) = Some c' \<and> receiver c' = RDone \<and>
           finalized c') \<and>
     (conn_open c \<longrightarrow>
        (\<exists>c'. close c = Some (None, c') \<and> receiver c' = RDone \<and> finalized c'))"
proof -
  from assms have p: "0 < nat ch" by simp
  from crun_inv [OF p new_client_inv [OF assms], of acts] obtain c where
    c: "crun acts (new_client (started ch)) = Some c" "session_inv (nat ch) c" by blast
  from c(2) have 1: "if receiver c = RDone then finalized c
      else exports (ctrace c) = [] \<and> sink_closes (trace (speaker c)) = 0"
    by (auto simp: session_inv_def split: if_splits)
  from c(2) have "session_inv (nat ch) (c\<lparr>conn_open := False\<rparr>)"
    by (rule session_inv_same) simp_all
  from join_receiver_closed [OF this]
  have 2: "\<exists>c'. join_receiver (c\<lparr>conn_open := False\<rparr>) = Some c' \<and> receiver c' = RDone \<and>
           finalized c'" by auto
  from close_inv [OF c(2)]
  have 3: "conn_open c \<longrightarrow>
        (\<exists>c'. close c = Some (None, c') \<and> receiver c' = RDone \<and> finalized c')"
    by (auto split: if_splits)
  show ?thesis
    by (rule exI [of _ c]) (intro conjI c(1) 1 2 3)
qed

theorem finalization_once_witness:
  "(0::int) < 2 \<and>
   map_option summary
     (crun [Deliver (MBytes [1, 2, 3]), RecvStep, RecvStep, PlayStep, PlayStep]
        (new_client (started 2))) = Some (RReady, [], 0) \<and>
   map_option summary
     (crun [Deliver (MBytes [1, 2, 3]), RecvStep, RecvStep, PlayStep, PlayStep, Close]
        (new_client (started 2))) = Some (RDone, [save_to_wav [[1, 2, 3]]], 1) \<and>
   map_option summary
     (crun [Deliver (MBytes [1, 2, 3]), RecvStep, RecvStep, PlayStep, PlayStep, Drop,
            RecvStep, RecvStep, Close, PlayStep]
        (new_client (started 2))) = Some (RDone, [save_to_wav [[1, 2, 3]]], 1)"
proof -
  let ?A = "[Deliver (MBytes [1, 2, 3]), RecvStep, RecvStep, PlayStep, PlayStep]"
  have h: "(0::int) < 2" by simp
  have e: "map_option summary (crun ?A (new_client (started 2))) = Some (RReady, [], 0)"
    "map_option summary (crun (?A @ [Close]) (new_client (started 2))) =
       Some (RDone, [save_to_wav [[1, 2, 3]]], 1)"
    "map_option summary
       (crun (?A @ [Drop, RecvStep, RecvStep, Close, PlayStep]) (new_client (started 2))) =
       Some (RDone, [save_to_wav [[1, 2, 3]]], 1)"
    by code_simp+
  from finalization_once [OF h, of ?A] e show ?thesis by simp
qed

subsection \<open>Inbound messages and control messages\<close>

text \<open>
  Claim C10. When \<^verbatim>\<open>recv\<close> returns a message that is neither a text string nor a binary
  fragment (\<open>None\<close>, or an object of another type), the receive loop only goes back to the
  test of its condition: nothing is forwarded to the playback engine, nothing is appended
  to the recorded audio, nothing is printed, and the loop has not ended.
\<close>

theorem receiver_skips_other:
  assumes "receiver c = RReceiving" "inbox c = m # ms"
    "\<forall>t. m \<noteq> MText t" "\<forall>b. m \<noteq> MBytes b"
  shows "\<exists>c'. receiver_step c = Some c' \<and> c' = c\<lparr>inbox := ms, receiver := RReady\<rparr> \<and>
     speaker c' = speaker c \<and> audio_data c' = audio_data c \<and> ctrace c' = ctrace c \<and>
     receiver c' \<noteq> RDone"
proof -
  from assms(3,4) have "m = MNone \<or> m = MOther" by (cases m) auto
  with assms(1,2) have "receiver_step c = Some (c\<lparr>inbox := ms, receiver := RReady\<rparr>)"
    by (auto simp: receiver_step_def)
  then show ?thesis by simp
qed

theorem receiver_skips_other_witness:
  "receiver_step ((new_client (started 2))\<lparr>inbox := [MNone], receiver := RReceiving\<rparr>) =
     Some (new_client (started 2)) \<and>
   receiver_step ((new_client (started 2))\<lparr>inbox := [MOther, MBytes [1]],
       receiver := RReceiving\<rparr>) =
     Some ((new_client (started 2))\<lparr>inbox := [MBytes [1]]\<rparr>)"
proof -
  let ?c1 = "(new_client (started 2))\<lparr>inbox := [MNone], receiver := RReceiving\<rparr>"
  let ?c2 = "(new_client (started 2))\<lparr>inbox := [MOther, MBytes [1]],
       receiver := RReceiving\<rparr>"
  have 1: "receiver ?c1 = RReceiving" "inbox ?c1 = MNone # []"
    "\<forall>t. MNone \<noteq> MText t" "\<forall>b. MNone \<noteq> MBytes b" by simp_all
  have 2: "receiver ?c2 = RReceiving" "inbox ?c2 = MOther # [MBytes [1]]"
    "\<forall>t. MOther \<noteq> MText t" "\<forall>b. MOther \<noteq> MBytes b" by simp_all
  from receiver_skips_other [OF 1] receiver_skips_other [OF 2]
  show ?thesis by (simp add: new_client_def)
qed

lemma encode_keys:
  "encode_str (str ''type'') = dq ''type''" "encode_str (str ''text'') = dq ''text''"
  "encode_str (str ''Speak'') = dq ''Speak''" "encode_str (str ''Flush'') = dq ''Flush''"
  by code_simp+

lemma flush_text:
  "json_dumps flush_message = Inr (''{'' @ dq ''type'' @ '': '' @ dq ''Flush'' @ ''}'')"
  by code_simp

lemma speak_text:
  "json_dumps (speak_message (PyStr s)) =
     Inr (''{'' @ dq ''type'' @ '': '' @ dq ''Speak'' @ '', '' @ dq ''text'' @ '': '' @
          encode_str s @ ''}'')"
  by (simp add: json_dumps_def speak_message_def encode_keys)

text \<open>
  Claim C9. If \<^verbatim>\<open>json.dumps\<close> raises on the control message, \<^verbatim>\<open>speak\<close> and \<^verbatim>\<open>flush\<close> raise
  that exception to the caller and nothing is sent; \<^verbatim>\<open>bytes\<close> as \<^verbatim>\<open>text\<close> is such a case.
  When the serialisation succeeds and the connection is open, \<^verbatim>\<open>speak\<close> sends exactly the
  serialised message, which for a string \<^verbatim>\<open>text\<close> is the JSON object with \<^verbatim>\<open>"type"\<close>
  \<^verbatim>\<open>"Speak"\<close> and \<^verbatim>\<open>"text"\<close> the escaped string, and \<^verbatim>\<open>flush\<close> sends exactly the JSON
  object with \<^verbatim>\<open>"type"\<close> \<^verbatim>\<open>"Flush"\<close>.
\<close>

theorem speak_flush_send:
  "(json_dumps (speak_message text) = Inl e \<longrightarrow> speak text c = Inl e) \<and>
   (json_dumps (speak_message text) = Inr m \<and> conn_open c \<longrightarrow>
      speak text c = Inr (c\<lparr>ctrace := ctrace c @ [Sent m]\<rparr>)) \<and>
   json_dumps (speak_message (PyStr s)) =
     Inr (''{'' @ dq ''type'' @ '': '' @ dq ''Speak'' @ '', '' @ dq ''text'' @ '': '' @
          encode_str s @ ''}'') \<and>
   json_dumps (speak_message (PyBytes b)) = Inl TypeError \<and>
   (json_dumps flush_message = Inl e \<longrightarrow> flush c = Inl e) \<and>
   json_dumps flush_message = Inr (''{'' @ dq ''type'' @ '': '' @ dq ''Flush'' @ ''}'') \<and>
   (conn_open c \<longrightarrow>
      flush c =
        Inr (c\<lparr>ctrace := ctrace c @
                [Sent (''{'' @ dq ''type'' @ '': '' @ dq ''Flush'' @ ''}'')]\<rparr>))"
proof (intro conjI impI)
  assume "json_dumps (speak_message text) = Inl e"
  then show "speak text c = Inl e" by (simp add: speak_def)
next
  assume "json_dumps (speak_message text) = Inr m \<and> conn_open c"
  then show "speak text c = Inr (c\<lparr>ctrace := ctrace c @ [Sent m]\<rparr>)"
    by (simp add: speak_def socket_send_def)
next
  show "json_dumps (speak_message (PyStr s)) =
     Inr (''{'' @ dq ''type'' @ '': '' @ dq ''Speak'' @ '', '' @ dq ''text'' @ '': '' @
          encode_str s @ ''}'')" by (rule speak_text)
next
  show "json_dumps (speak_message (PyBytes b)) = Inl TypeError"
    by (simp add: json_dumps_def speak_message_def)
next
  assume "json_dumps flush_message = Inl e"
  then show "flush c = Inl e" by (simp add: flush_def)
next
  show "json_dumps flush_message = Inr (''{'' @ dq ''type'' @ '': '' @ dq ''Flush'' @ ''}'')"
    by (rule flush_text)
next
  assume "conn_open c"
  then show "flush c =
        Inr (c\<lparr>ctrace := ctrace c @
                [Sent (''{'' @ dq ''type'' @ '': '' @ dq ''Flush'' @ ''}'')]\<rparr>)"
    by (simp only: flush_def flush_text socket_send_def sum.case if_True)
qed

theorem speak_flush_send_witness:
  "json_dumps (speak_message (PyBytes [1])) = Inl TypeError \<and>
   speak (PyBytes [1]) (new_client (started 2)) = Inl TypeError \<and>
   conn_open (new_client (started 2)) \<and>
   speak (PyStr (str ''Hello'')) (new_client (started 2)) =
     Inr ((new_client (started 2))\<lparr>ctrace :=
        [Sent (''{'' @ dq ''type'' @ '': '' @ dq ''Speak'' @ '', '' @ dq ''text'' @ '': '' @
               dq ''Hello'' @ ''}'')]\<rparr>) \<and>
   flush (new_client (started 2)) =
     Inr ((new_client (started 2))\<lparr>ctrace :=
        [Sent (''{'' @ dq ''type'' @ '': '' @ dq ''Flush'' @ ''}'')]\<rparr>)"
proof -
  let ?c = "new_client (started 2)"
  have o: "conn_open ?c" by (simp add: new_client_def)
  have h: "encode_str (str ''Hello'') = dq ''Hello''" by code_simp
  have t: "ctrace ?c = []" by (simp add: new_client_def)
  note T = speak_flush_send [of "PyBytes [1]" TypeError ?c _ _ "[1]"]
  note S = speak_flush_send [of "PyStr (str ''Hello'')" _ ?c
      "''{'' @ dq ''type'' @ '': '' @ dq ''Speak'' @ '', '' @ dq ''text'' @ '': '' @
         encode_str (str ''Hello'') @ ''}''" "str ''Hello''"]
  from T have 1: "json_dumps (speak_message (PyBytes [1])) = Inl TypeError"
    "speak (PyBytes [1]) ?c = Inl TypeError" by blast+
  from S o have 2: "speak (PyStr (str ''Hello'')) ?c =
     Inr (?c\<lparr>ctrace := ctrace ?c @
        [Sent (''{'' @ dq ''type'' @ '': '' @ dq ''Speak'' @ '', '' @ dq ''text'' @ '': '' @
               encode_str (str ''Hello'') @ ''}'')]\<rparr>)" by blast
  from S o have 3: "flush ?c =
        Inr (?c\<lparr>ctrace := ctrace ?c @
                [Sent (''{'' @ dq ''type'' @ '': '' @ dq ''Flush'' @ ''}'')]\<rparr>)" by blast
  from 1 2 3 o show ?thesis by (simp only: h t append_Nil simp_thms)
qed

subsection \<open>Release and join\<close>

lemma finalize_total:
  "\<exists>c' es. finalize c = Some c' \<and> receiver c' = RDone \<and> conn_open c' = conn_open c \<and>
     c_exit c' = c_exit c \<and> ctrace c' = ctrace c @ es"
proof -
  from stop_total [of "speaker c"] obtain sp where "stop (speaker c) = Some sp" by blast
  then show ?thesis by (simp add: finalize_def)
qed

lemma receiver_step_total:
  "\<exists>c' es. receiver_step c = Some c' \<and> conn_open c' = conn_open c \<and>
     c_exit c' = c_exit c \<and> ctrace c' = ctrace c @ es"
proof (cases "receiver c")
  case RDone
  then show ?thesis by (simp add: receiver_step_def)
next
  case RReady
  show ?thesis
  proof (cases "c_exit c")
    case True
    with RReady finalize_total [of c] show ?thesis by (auto simp: receiver_step_def)
  next
    case False
    with RReady show ?thesis by (simp add: receiver_step_def)
  qed
next
  case RReceiving
  show ?thesis
  proof (cases "inbox c")
    case Nil
    show ?thesis
    proof (cases "conn_open c")
      case True
      with Nil RReceiving show ?thesis by (simp add: receiver_step_def)
    next
      case False
      let ?c = "c\<lparr>ctrace := ctrace c @
                     [RecvRaised ConnectionClosed, PrintedError ConnectionClosed]\<rparr>"
      from finalize_total [of ?c] obtain c' es where
        "finalize ?c = Some c'" "conn_open c' = conn_open ?c" "c_exit c' = c_exit ?c"
        "ctrace c' = ctrace ?c @ es" by blast
      with Nil RReceiving False show ?thesis by (simp add: receiver_step_def)
    qed
  next
    case (Cons m ms)
    with RReceiving show ?thesis by (cases m) (simp_all add: receiver_step_def)
  qed
qed

lemma join_receiver_total:
  assumes "\<not> conn_open c"
  shows "\<exists>c' es. join_receiver c = Some c' \<and> receiver c' = RDone \<and>
     ctrace c' = ctrace c @ es \<and> c_exit c' = c_exit c \<and> conn_open c' = conn_open c"
  using assms
proof (induction "2 * length (inbox c) + (if receiver c = RReady then 1 else (0::nat))"
    arbitrary: c rule: less_induct)
  case less
  show ?case
  proof (cases "receiver c = RDone")
    case True
    then have "join_receiver c = Some c" by (subst join_receiver.simps) simp
    with True show ?thesis by simp
  next
    case False
    from receiver_step_total [of c] obtain c1 es1 where
      c1: "receiver_step c = Some c1" "conn_open c1 = conn_open c"
        "c_exit c1 = c_exit c" "ctrace c1 = ctrace c @ es1"
      by blast
    from False c1(1) have j: "join_receiver c = join_receiver c1"
      by (subst join_receiver.simps) simp
    show ?thesis
    proof (cases "receiver c1 = RDone")
      case True
      then have "join_receiver c1 = Some c1" by (subst join_receiver.simps) simp
      with j True c1 show ?thesis by simp
    next
      case n: False
      from receiver_step_measure [OF less.prems False c1(1) n]
      have "2 * length (inbox c1) + (if receiver c1 = RReady then 1 else 0) <
         2 * length (inbox c) + (if receiver c = RReady then 1 else (0::nat))" .
      from less.hyps [OF this] c1(2) less.prems obtain c' es where
        "join_receiver c1 = Some c'" "receiver c' = RDone"
        "ctrace c' = ctrace c1 @ es" "c_exit c' = c_exit c1" "conn_open c' = conn_open c1"
        by auto
      with j c1 show ?thesis by simp
    qed
  qed
qed

lemma close_total:
  "if conn_open c
   then (\<exists>c' es. close c = Some (None, c') \<and> receiver c' = RDone \<and> c_exit c' \<and>
           \<not> conn_open c' \<and>
           ctrace c' = ctrace c @
             [Sent (''{'' @ dq ''type'' @ '': '' @ dq ''Close'' @ ''}''), ConnClosed] @ es @
             [ReceiverJoined])
   else close c = Some (Some ConnectionClosed, c\<lparr>c_exit := True\<rparr>)"
proof (cases "conn_open c")
  case False
  then show ?thesis by (simp add: close_def close_text socket_send_def)
next
  case True
  let ?m = "''{'' @ dq ''type'' @ '': '' @ dq ''Close'' @ ''}''"
  let ?c1 = "c\<lparr>c_exit := True, ctrace := ctrace c @ [Sent ?m], conn_open := False,
      ctrace := (ctrace c @ [Sent ?m]) @ [ConnClosed]\<rparr>"
  have "\<not> conn_open ?c1" by simp
  from join_receiver_total [OF this] obtain c2 es where
    c2: "join_receiver ?c1 = Some c2" "receiver c2 = RDone"
      "ctrace c2 = ctrace ?c1 @ es" "c_exit c2 = c_exit ?c1" "conn_open c2 = conn_open ?c1"
    by blast
  let ?c3 = "c2\<lparr>ctrace := ctrace c2 @ [ReceiverJoined]\<rparr>"
  from True c2(1) have "close c = Some (None, ?c3)"
    by (simp add: close_def close_text socket_send_def)
  moreover from c2 have "ctrace ?c3 = ctrace c @ [Sent ?m, ConnClosed] @ es @ [ReceiverJoined]"
    by simp
  ultimately show ?thesis using True c2 by simp
qed

text \<open>
  Claim C4, as amended. \<^verbatim>\<open>stop\<close> on an engine that has a playback thread, and \<^verbatim>\<open>close\<close>
  on an open connection, return only when the corresponding background thread has ended
  (the join), but each releases the resource before it joins: \<^verbatim>\<open>stop\<close> stops and closes
  the sink and then joins the playback thread, \<^verbatim>\<open>close\<close> sends the Close message, closes
  the connection and then joins the receive thread. What the loop still does between the
  release and the join is in the trace between them: for the playback loop at most one
  attempt to write, which raises in that thread; the sink accepts no write after it is
  closed. \<^verbatim>\<open>close\<close> on a connection that is no longer open raises at \<^verbatim>\<open>send\<close>, with the exit
  flag set, and neither closes nor joins; the receive thread then ends by itself.
\<close>

theorem release_then_join:
  "(thread s \<noteq> None \<longrightarrow>
      (\<exists>s1 s' es. join (stop_release (s\<lparr>exit_flag := True\<rparr>)) = Some s1 \<and>
          (thread s1 = Some Finished \<or> thread s1 = Some Died) \<and>
          stop s = Some s' \<and>
          trace s' = trace s @ (if stream s = None then [] else [SinkStop, SinkClose]) @ es @
             [Joined] \<and>
          writes es = [] \<and>
          (es = [] \<or> (\<exists>b. es = [SinkWriteFailed b]) \<or>
           (\<exists>b. es = [SinkWriteFailed b, Logged AttributeError])))) \<and>
   (if conn_open c
    then (\<exists>c' es. close c = Some (None, c') \<and> receiver c' = RDone \<and> \<not> conn_open c' \<and>
            ctrace c' = ctrace c @
              [Sent (''{'' @ dq ''type'' @ '': '' @ dq ''Close'' @ ''}''), ConnClosed] @ es @
              [ReceiverJoined])
    else close c = Some (Some ConnectionClosed, c\<lparr>c_exit := True\<rparr>) \<and>
         (\<exists>c'. join_receiver (c\<lparr>c_exit := True\<rparr>) = Some c' \<and> receiver c' = RDone))"
proof (intro conjI impI)
  assume a: "thread s \<noteq> None"
  let ?r = "stop_release (s\<lparr>exit_flag := True\<rparr>)"
  from a have r: "stream ?r = None" "exit_flag ?r" "thread ?r \<noteq> None"
    "trace ?r = trace s @ (if stream s = None then [] else [SinkStop, SinkClose])"
    by (simp_all add: stop_release_def)
  from join_released [OF r(1,2,3)] obtain s1 es where
    j: "join ?r = Some s1" "thread s1 = Some Finished \<or> thread s1 = Some Died"
       "trace s1 = trace ?r @ es" and
    es: "es = [] \<or> (\<exists>b. es = [SinkWriteFailed b]) \<or>
       (\<exists>b. es = [SinkWriteFailed b, Logged AttributeError])"
    by blast
  let ?s' = "s1\<lparr>thread := None, trace := trace s1 @ [Joined], queue := []\<rparr>"
  from j(1) r(3) have "stop s = Some ?s'" by (simp add: stop_def stop_join_def)
  moreover from j(3) r(4)
  have "trace ?s' = trace s @ (if stream s = None then [] else [SinkStop, SinkClose]) @ es @
      [Joined]"
    by simp
  moreover from es have "writes es = []" by (rule writes_shapes)
  ultimately show "\<exists>s1 s' es. join ?r = Some s1 \<and>
          (thread s1 = Some Finished \<or> thread s1 = Some Died) \<and>
          stop s = Some s' \<and>
          trace s' = trace s @ (if stream s = None then [] else [SinkStop, SinkClose]) @ es @
             [Joined] \<and>
          writes es = [] \<and>
          (es = [] \<or> (\<exists>b. es = [SinkWriteFailed b]) \<or>
           (\<exists>b. es = [SinkWriteFailed b, Logged AttributeError]))"
    using j(1,2) es by blast
next
  show "if conn_open c
    then (\<exists>c' es. close c = Some (None, c') \<and> receiver c' = RDone \<and> \<not> conn_open c' \<and>
            ctrace c' = ctrace c @
              [Sent (''{'' @ dq ''type'' @ '': '' @ dq ''Close'' @ ''}''), ConnClosed] @ es @
              [ReceiverJoined])
    else close c = Some (Some ConnectionClosed, c\<lparr>c_exit := True\<rparr>) \<and>
         (\<exists>c'. join_receiver (c\<lparr>c_exit := True\<rparr>) = Some c' \<and> receiver c' = RDone)"
  proof (cases "conn_open c")
    case True
    with close_total [of c] show ?thesis by auto
  next
    case False
    then have "\<not> conn_open (c\<lparr>c_exit := True\<rparr>)" by simp
    from join_receiver_total [OF this]
    have "\<exists>c'. join_receiver (c\<lparr>c_exit := True\<rparr>) = Some c' \<and> receiver c' = RDone"
      by blast
    with False close_total [of c] show ?thesis by auto
  qed
qed

theorem release_then_join_witness:
  "thread ((started 2)\<lparr>buffer := [7], thread := Some Waiting\<rparr>) \<noteq> None \<and>
   map_option trace (stop ((started 2)\<lparr>buffer := [7], thread := Some Waiting\<rparr>)) =
     Some ([SinkOpen, SinkStart] @ [SinkStop, SinkClose] @ [SinkWriteFailed [7]] @ [Joined]) \<and>
   conn_open (new_client (started 2)) \<and>
   map_option (receiver \<circ> snd) (close (new_client (started 2))) = Some RDone \<and>
   crun [Deliver (MBytes [1]), Drop] (new_client (started 2)) =
     Some ((new_client (started 2))\<lparr>conn_open := False, inbox := [MBytes [1]]\<rparr>) \<and>
   \<not> conn_open ((new_client (started 2))\<lparr>conn_open := False, inbox := [MBytes [1]]\<rparr>) \<and>
   close ((new_client (started 2))\<lparr>conn_open := False, inbox := [MBytes [1]]\<rparr>) =
     Some (Some ConnectionClosed,
           (new_client (started 2))\<lparr>conn_open := False, inbox := [MBytes [1]],
              c_exit := True\<rparr>) \<and>
   map_option receiver
     (join_receiver ((new_client (started 2))\<lparr>conn_open := False, inbox := [MBytes [1]],
        c_exit := True\<rparr>)) = Some RDone"
proof -
  let ?s = "(started 2)\<lparr>buffer := [7], thread := Some Waiting\<rparr>"
  let ?c = "new_client (started 2)"
  let ?x = "(new_client (started 2))\<lparr>conn_open := False, inbox := [MBytes [1]]\<rparr>"
  have e: "map_option trace (stop ?s) =
     Some ([SinkOpen, SinkStart] @ [SinkStop, SinkClose] @ [SinkWriteFailed [7]] @ [Joined])"
    by code_simp
  have f: "thread ?s \<noteq> None" "conn_open ?c" "\<not> conn_open ?x"
    by (simp_all add: started_def new_client_def)
  have g: "crun [Deliver (MBytes [1]), Drop] ?c = Some ?x"
    by (simp add: new_client_def)
  from release_then_join [of ?s ?c] f
  obtain c' where "close ?c = Some (None, c')" "receiver c' = RDone" by auto
  then have 1: "map_option (receiver \<circ> snd) (close ?c) = Some RDone" by simp
  from release_then_join [of ?s ?x] f
  have 2: "close ?x = Some (Some ConnectionClosed, ?x\<lparr>c_exit := True\<rparr>)"
    "\<exists>c'. join_receiver (?x\<lparr>c_exit := True\<rparr>) = Some c' \<and> receiver c' = RDone"
    by auto
  from 2(2) have 3: "map_option receiver (join_receiver (?x\<lparr>c_exit := True\<rparr>)) = Some RDone"
    by auto
  from e f g 1 2(1) 3 show ?thesis by simp
qed

text \<open>
  Claim C4 as stated fails: the thread is not joined before the resource is released, and a
  pass of the loop that is under way touches the resource after the release. With one byte
  in the buffer and the playback thread waiting on the queue, \<^verbatim>\<open>stop\<close> closes the sink,
  then the idle flush of the waiting pass attempts its write and raises, then the thread
  is joined. With the receive thread blocked in \<^verbatim>\<open>recv\<close>, \<^verbatim>\<open>close\<close> closes the connection,
  then \<^verbatim>\<open>recv\<close> raises on it, then the thread is joined.
\<close>

theorem sink_closed_before_join:
  "map_option trace (Option.bind (run [Play [1], Tick, Tick, Tick] (started 4096)) stop) =
     Some [SinkOpen, SinkStart, SinkStop, SinkClose, SinkWriteFailed [1], Joined] \<and>
   \<not> precedes Joined SinkClose
       [SinkOpen, SinkStart, SinkStop, SinkClose, SinkWriteFailed [1], Joined] \<and>
   precedes SinkClose (SinkWriteFailed [1])
       [SinkOpen, SinkStart, SinkStop, SinkClose, SinkWriteFailed [1], Joined] \<and>
   map_option (ctrace \<circ> snd)
       (Option.bind (crun [RecvStep] (new_client (started 4096))) close) =
     Some [Sent (''{'' @ dq ''type'' @ '': '' @ dq ''Close'' @ ''}''), ConnClosed,
           RecvRaised ConnectionClosed, PrintedError ConnectionClosed,
           Exported (save_to_wav []), ReceiverJoined] \<and>
   \<not> precedes ReceiverJoined ConnClosed
       [Sent (''{'' @ dq ''type'' @ '': '' @ dq ''Close'' @ ''}''), ConnClosed,
        RecvRaised ConnectionClosed, PrintedError ConnectionClosed,
        Exported (save_to_wav []), ReceiverJoined]"
  by code_simp

end
